theory Spec2Isabelle
  imports Main "HOL-Library.Char_ord" "HOL-Library.List_Lexorder" "HOL-Library.Product_Lexorder"
begin

section \<open>Data model of \<open>DijkstraVisualizer\<close>\<close>

text \<open>
  Node identifiers are Python strings; the graph is a dict literal from a node to its
  list of (neighbour, weight) edges, kept here as an association list in insertion order
  and read with \<open>map_of\<close>.
\<close>

type_synonym node = string
type_synonym edge = "node \<times> int"
type_synonym graph = "(node \<times> edge list) list"

text \<open>
  The distance table holds Python floats: \<open>float("inf")\<close> or a sum of the integer edge
  weights starting from \<open>0.0\<close>. A finite float is modelled by the integer it holds,
  which is exact as long as the sums stay below 2 to the power 53 in absolute value.
\<close>

datatype dval = Fin int | PosInf

instantiation dval :: linorder
begin

fun less_eq_dval :: "dval \<Rightarrow> dval \<Rightarrow> bool" where
  "less_eq_dval (Fin a) (Fin b) = (a \<le> b)"
| "less_eq_dval (Fin a) PosInf = True"
| "less_eq_dval PosInf (Fin b) = False"
| "less_eq_dval PosInf PosInf = True"

fun less_dval :: "dval \<Rightarrow> dval \<Rightarrow> bool" where
  "less_dval (Fin a) (Fin b) = (a < b)"
| "less_dval (Fin a) PosInf = True"
| "less_dval PosInf (Fin b) = False"
| "less_dval PosInf PosInf = False"

instance
proof
  fix x y z :: dval
  show "(x < y) = (x \<le> y \<and> \<not> y \<le> x)" by (cases x; cases y) auto
  show "x \<le> x" by (cases x) auto
  show "x \<le> y \<Longrightarrow> y \<le> z \<Longrightarrow> x \<le> z" by (cases x; cases y; cases z) auto
  show "x \<le> y \<Longrightarrow> y \<le> x \<Longrightarrow> x = y" by (cases x; cases y) auto
  show "x \<le> y \<or> y \<le> x" by (cases x; cases y) auto
qed

end

text \<open>\<open>dist_u + weight\<close>: adding an integer weight to a float; infinity absorbs.\<close>

fun dadd :: "dval \<Rightarrow> int \<Rightarrow> dval" where
  "dadd (Fin a) w = Fin (a + w)"
| "dadd PosInf w = PosInf"

text \<open>The radio button \<open>algo_choice\<close>: the value \<open>"heap"\<close>, or the other one (\<open>"lin"\<close>).\<close>

datatype algo = Heap | Lin

datatype error = KeyError | TypeError

text \<open>
  The constants of \<open>__init__\<close>. \<open>set_order\<close> is the order in which Python iterates the
  set \<open>set(self.graph)\<close>: it depends on the string hashes, so it is a parameter here.
\<close>

record config =
  graph :: graph
  start_node :: node
  end_node :: node
  set_order :: "node list"

definition nodes :: "config \<Rightarrow> node list" where
  "nodes cfg = map fst (graph cfg)"

text \<open>
  The mutable fields of the object. \<open>unvisited\<close> is a Python set, kept as the list of its
  elements in iteration order; \<open>pq\<close> is the \<open>heapq\<close> list of (distance, node) tuples.
  \<open>start_time\<close> is the reading of \<open>time.perf_counter()\<close>, as a number of clock ticks.
  Of the widgets, the text of \<open>status_label\<close> and the state of \<open>step_button\<close> are kept.
\<close>

record engine =
  dist :: "node \<rightharpoonup> dval"
  prev :: "node \<rightharpoonup> node option"
  visited :: "node set"
  unvisited :: "node list"
  pq :: "(dval \<times> node) list"
  current_node :: "node option"
  is_running :: bool
  is_finished :: bool
  start_time :: int
  status_label :: string
  step_button :: string

section \<open>The standard-library operations the engine calls\<close>

text \<open>
  \<open>heapq\<close> is modelled by its contract: the tuples are totally ordered (distance first,
  then node name), \<open>pq[0]\<close> is the least tuple and \<open>heappop\<close> removes it. The queue is kept
  in ascending order, so \<open>pq[0]\<close> is the head and \<open>heappop\<close> takes the tail. The layout of
  the binary heap inside the Python list is not modelled: \<open>step\<close> reads \<open>pq[0]\<close> and pops,
  nothing else, and \<open>_redraw\<close> shows \<open>sorted(self.pq)\<close>.
\<close>

definition heappush :: "(dval \<times> node) list \<Rightarrow> dval \<times> node \<Rightarrow> (dval \<times> node) list" where
  "heappush q x = insort x q"

text \<open>
  \<open>min(self.unvisited, key=self.dist.get, default=None)\<close>: the first element whose key
  is least; a later element replaces the best one only when its key is strictly less.
  \<open>dist.get\<close> gives \<open>None\<close> on a missing node, and comparing \<open>None\<close> raises \<open>TypeError\<close>.
\<close>

fun min_scan :: "(node \<rightharpoonup> dval) \<Rightarrow> node \<Rightarrow> dval option \<Rightarrow> node list \<Rightarrow> error + node" where
  "min_scan d best kb [] = Inr best"
| "min_scan d best kb (x # xs) =
     (case (d x, kb) of
        (Some kx, Some k) \<Rightarrow> if kx < k then min_scan d x (Some kx) xs else min_scan d best kb xs
      | _ \<Rightarrow> Inl TypeError)"

definition py_min :: "(node \<rightharpoonup> dval) \<Rightarrow> node list \<Rightarrow> error + node option" where
  "py_min d xs =
     (case xs of
        [] \<Rightarrow> Inr None
      | x # ys \<Rightarrow> (case min_scan d x (d x) ys of Inl e \<Rightarrow> Inl e | Inr u \<Rightarrow> Inr (Some u)))"

section \<open>The engine\<close>

text \<open>\<open>reset\<close> (lines 63-77).\<close>

definition reset :: "config \<Rightarrow> engine" where
  "reset cfg =
     \<lparr> dist = (\<lambda>n. if n \<in> set (nodes cfg) then Some PosInf else None)(start_node cfg \<mapsto> Fin 0),
       prev = (\<lambda>n. if n \<in> set (nodes cfg) then Some None else None),
       visited = {},
       unvisited = set_order cfg,
       pq = [],
       current_node = None,
       is_running = False,
       is_finished = False,
       start_time = 0,
       status_label = ''Select an algorithm and press Start'',
       step_button = ''disabled'' \<rparr>"

text \<open>\<open>start\<close> (lines 79-88); \<open>now\<close> is what \<open>time.perf_counter()\<close> returns.\<close>

definition start :: "config \<Rightarrow> algo \<Rightarrow> int \<Rightarrow> engine \<Rightarrow> engine" where
  "start cfg algo_choice now s =
     (if is_running s then s
      else s\<lparr> pq := (if algo_choice = Heap then heappush (pq s) (Fin 0, start_node cfg) else pq s),
              is_running := True,
              start_time := now,
              step_button := ''normal'',
              status_label := ''Running... Press Step to continue.'' \<rparr>)"

text \<open>\<open>_finish\<close> (lines 125-133); the elapsed-time text is not modelled.\<close>

definition finish :: "config \<Rightarrow> engine \<Rightarrow> error + engine" where
  "finish cfg s =
     (case dist s (end_node cfg) of
        None \<Rightarrow> Inl KeyError
      | Some d \<Rightarrow>
          Inr (s\<lparr> is_finished := True,
                  is_running := False,
                  status_label := (if d < PosInf then ''Path found!'' else ''Target is unreachable.''),
                  step_button := ''disabled'' \<rparr>))"

text \<open>The relaxation loop of \<open>step\<close> (lines 113-121) over the edges of \<open>u\<close>.\<close>

fun relax :: "algo \<Rightarrow> node \<Rightarrow> dval \<Rightarrow> edge list \<Rightarrow> engine \<Rightarrow> error + engine" where
  "relax algo_choice u dist_u [] s = Inr s"
| "relax algo_choice u dist_u ((neighbor, weight) # es) s =
     (if neighbor \<in> visited s then relax algo_choice u dist_u es s
      else
        (case dist s neighbor of
           None \<Rightarrow> Inl KeyError
         | Some dn \<Rightarrow>
             if dadd dist_u weight < dn
             then relax algo_choice u dist_u es
                    (s\<lparr> dist := (dist s)(neighbor \<mapsto> dadd dist_u weight),
                        prev := (prev s)(neighbor \<mapsto> Some u),
                        pq := (if algo_choice = Heap
                               then heappush (pq s) (dadd dist_u weight, neighbor)
                               else pq s) \<rparr>)
             else relax algo_choice u dist_u es s))"

text \<open>
  The selection of \<open>step\<close>: lines 95-99 for the heap, lines 101-105 for the linear scan.
  It ends with no candidate, with a candidate and its distance, or with an exception.
\<close>

datatype pick = Exhausted engine | Chosen dval node engine | Raised error

definition pick_heap :: "engine \<Rightarrow> pick" where
  "pick_heap s =
     (case dropWhile (\<lambda>e. snd e \<in> visited s) (pq s) of
        [] \<Rightarrow> Exhausted (s\<lparr> pq := [] \<rparr>)
      | (dist_u, u) # q \<Rightarrow> Chosen dist_u u (s\<lparr> pq := q \<rparr>))"

definition pick_lin :: "engine \<Rightarrow> pick" where
  "pick_lin s =
     (case py_min (dist s) (unvisited s) of
        Inl e \<Rightarrow> Raised e
      | Inr None \<Rightarrow> Exhausted s
      | Inr (Some u) \<Rightarrow>
          (case dist s u of
             None \<Rightarrow> Raised KeyError
           | Some dist_u \<Rightarrow>
               if dist_u = PosInf then Exhausted s
               else Chosen dist_u u (s\<lparr> unvisited := removeAll u (unvisited s) \<rparr>)))"

definition pick_next :: "algo \<Rightarrow> engine \<Rightarrow> pick" where
  "pick_next algo_choice s = (if algo_choice = Heap then pick_heap s else pick_lin s)"

text \<open>Lines 107-121: mark \<open>u\<close>, stop at the end node, otherwise relax the edges of \<open>u\<close>.\<close>

definition settle :: "config \<Rightarrow> algo \<Rightarrow> dval \<Rightarrow> node \<Rightarrow> engine \<Rightarrow> error + engine" where
  "settle cfg algo_choice dist_u u s =
     (let s1 = s\<lparr> current_node := Some u, visited := insert u (visited s) \<rparr>
      in if u = end_node cfg then finish cfg s1
         else (case map_of (graph cfg) u of
                 None \<Rightarrow> Inl KeyError
               | Some es \<Rightarrow> relax algo_choice u dist_u es s1))"

text \<open>\<open>step\<close> (lines 90-123). The Python method returns \<open>None\<close> on every path.\<close>

definition step :: "config \<Rightarrow> algo \<Rightarrow> engine \<Rightarrow> error + engine" where
  "step cfg algo_choice s =
     (if \<not> is_running s \<or> is_finished s then Inr s
      else
        (case pick_next algo_choice s of
           Raised e \<Rightarrow> Inl e
         | Exhausted s' \<Rightarrow> finish cfg s'
         | Chosen dist_u u s' \<Rightarrow> settle cfg algo_choice dist_u u s'))"

text \<open>
  The path walk of \<open>_redraw(show_path=True)\<close> (lines 166-172): \<open>while curr:\<close> stops at
  \<open>None\<close> and also at the empty string, which Python takes as false. A cycle of
  predecessors would keep the loop running: that is the value \<open>None\<close> of this function.
\<close>

partial_function (option) walk_prev ::
  "(node \<rightharpoonup> node option) \<Rightarrow> node option \<Rightarrow> node list \<Rightarrow> (error + node list) option" where
  "walk_prev pv cur path =
     (case cur of
        None \<Rightarrow> Some (Inr path)
      | Some c \<Rightarrow>
          if c = [] then Some (Inr path)
          else (case pv c of
                  None \<Rightarrow> Some (Inl KeyError)
                | Some nxt \<Rightarrow> walk_prev pv nxt (path @ [c])))"

declare walk_prev.simps [code]

text \<open>
  The path that \<open>_redraw(show_path=True)\<close> highlights: \<open>Inr None\<close> when no path is drawn,
  \<open>Inr (Some p)\<close> for the reversed walk \<open>p\<close>.
\<close>

definition shown_path :: "config \<Rightarrow> engine \<Rightarrow> (error + node list option) option" where
  "shown_path cfg s =
     (case dist s (end_node cfg) of
        None \<Rightarrow> Some (Inl KeyError)
      | Some d \<Rightarrow>
          if d < PosInf
          then (case walk_prev (prev s) (Some (end_node cfg)) [] of
                  None \<Rightarrow> None
                | Some (Inl e) \<Rightarrow> Some (Inl e)
                | Some (Inr path) \<Rightarrow> Some (Inr (Some (rev path))))
          else Some (Inr None))"

section \<open>Runs\<close>

text \<open>
  Every state the object can be in as long as no call has raised: after \<open>__init__\<close>
  (which ends with \<open>reset\<close>), the buttons call \<open>start\<close>, \<open>step\<close> and \<open>reset\<close> in any order,
  with any algorithm selected. A later \<open>reset\<close> gives the first state again.
\<close>

inductive reachable :: "config \<Rightarrow> engine \<Rightarrow> bool" for cfg :: config where
  after_reset: "reachable cfg (reset cfg)"
| after_start: "reachable cfg s \<Longrightarrow> reachable cfg (start cfg a now s)"
| after_step: "reachable cfg s \<Longrightarrow> step cfg a s = Inr s' \<Longrightarrow> reachable cfg s'"

text \<open>\<open>n\<close> presses of the Step button with the same algorithm selected.\<close>

fun steps :: "nat \<Rightarrow> config \<Rightarrow> algo \<Rightarrow> engine \<Rightarrow> error + engine" where
  "steps 0 cfg a s = Inr s"
| "steps (Suc n) cfg a s =
     (case step cfg a s of Inl e \<Rightarrow> Inl e | Inr s' \<Rightarrow> steps n cfg a s')"

text \<open>Pressing Step until the engine is finished; \<open>None\<close> when that never happens.\<close>

partial_function (option) step_until_finished ::
  "config \<Rightarrow> algo \<Rightarrow> engine \<Rightarrow> (error + engine) option" where
  "step_until_finished cfg a s =
     (if is_finished s then Some (Inr s)
      else (case step cfg a s of
              Inl e \<Rightarrow> Some (Inl e)
            | Inr s' \<Rightarrow> step_until_finished cfg a s'))"

declare step_until_finished.simps [code]

text \<open>A whole run: Reset, Start, then Step until finished.\<close>

definition run :: "config \<Rightarrow> algo \<Rightarrow> int \<Rightarrow> (error + engine) option" where
  "run cfg a now = step_until_finished cfg a (start cfg a now (reset cfg))"

text \<open>The built-in graph of \<open>__init__\<close> (lines 19-25).\<close>

definition builtin_graph :: graph where
  "builtin_graph =
     [(''A'', [(''B'', 2), (''C'', 5)]),
      (''B'', [(''A'', 2), (''C'', 6), (''D'', 1)]),
      (''C'', [(''A'', 5), (''B'', 6), (''E'', 3)]),
      (''D'', [(''B'', 1), (''E'', 1), (''F'', 4)]),
      (''E'', [(''C'', 3), (''D'', 1), (''G'', 2)]),
      (''F'', [(''D'', 4), (''G'', 1)]),
      (''G'', [(''E'', 2), (''F'', 1)])]"

definition builtin :: "node list \<Rightarrow> config" where
  "builtin order = \<lparr> graph = builtin_graph, start_node = ''A'', end_node = ''G'', set_order = order \<rparr>"

text \<open>One order in which the set of the built-in nodes may be iterated.\<close>

definition builtin_order :: "node list" where
  "builtin_order = [''A'', ''C'', ''B'', ''D'', ''G'', ''E'', ''F'']"

section \<open>Invariants\<close>

text \<open>
  The start node keeps distance \<open>0\<close>: until it is visited, it is the only node with a
  finite distance and the only node in the queue.
\<close>

definition start_fixed :: "config \<Rightarrow> engine \<Rightarrow> bool" where
  "start_fixed cfg s \<longleftrightarrow>
     dist s (start_node cfg) = Some (Fin 0) \<and>
     (start_node cfg \<notin> visited s \<longrightarrow>
        (\<forall>v d. dist s v = Some (Fin d) \<longrightarrow> v = start_node cfg) \<and>
        (\<forall>e \<in> set (pq s). snd e = start_node cfg))"

text \<open>
  The heap of a heap run: every entry is finite and not below the table distance of its
  node, and every unvisited node with a finite distance has an entry carrying exactly
  that distance. The sets of a linear-scan run: \<open>visited\<close> and \<open>unvisited\<close> split the nodes.
\<close>

definition heap_inv :: "engine \<Rightarrow> bool" where
  "heap_inv s \<longleftrightarrow>
     sorted (pq s) \<and>
     (\<forall>e \<in> set (pq s). (\<exists>x. fst e = Fin x) \<and> (\<exists>dv. dist s (snd e) = Some dv \<and> dv \<le> fst e)) \<and>
     (\<forall>v x. v \<notin> visited s \<longrightarrow> dist s v = Some (Fin x) \<longrightarrow> (Fin x, v) \<in> set (pq s))"

definition lin_inv :: "config \<Rightarrow> engine \<Rightarrow> bool" where
  "lin_inv cfg s \<longleftrightarrow>
     visited s \<inter> set (unvisited s) = {} \<and> visited s \<union> set (unvisited s) = set (nodes cfg)"

text \<open>
  A well-formed configuration: the keys of the dict are distinct, the start node, the
  end node and every neighbour are keys, and \<open>set_order\<close> lists the keys once each.
\<close>

definition wf_config :: "config \<Rightarrow> bool" where
  "wf_config cfg \<longleftrightarrow>
     distinct (nodes cfg) \<and>
     start_node cfg \<in> set (nodes cfg) \<and>
     end_node cfg \<in> set (nodes cfg) \<and>
     (\<forall>u es v w. map_of (graph cfg) u = Some es \<longrightarrow> (v, w) \<in> set es \<longrightarrow> v \<in> set (nodes cfg)) \<and>
     distinct (set_order cfg) \<and>
     set (set_order cfg) = set (nodes cfg)"

text \<open>
  What holds of the tables in every state of a run with one algorithm: the tables have
  the nodes as keys, the frontier is the one of the algorithm, and the run is either
  finished or still running with the end node unvisited.
\<close>

definition keys_inv :: "config \<Rightarrow> engine \<Rightarrow> bool" where
  "keys_inv cfg s \<longleftrightarrow>
     dom (dist s) = set (nodes cfg) \<and> dom (prev s) = set (nodes cfg) \<and> visited s \<subseteq> set (nodes cfg)"

definition frontier_inv :: "config \<Rightarrow> algo \<Rightarrow> engine \<Rightarrow> bool" where
  "frontier_inv cfg a s = (case a of Heap \<Rightarrow> heap_inv s | Lin \<Rightarrow> lin_inv cfg s)"

definition run_inv :: "config \<Rightarrow> algo \<Rightarrow> engine \<Rightarrow> bool" where
  "run_inv cfg a s \<longleftrightarrow>
     keys_inv cfg s \<and> frontier_inv cfg a s \<and>
     (if is_finished s then \<not> is_running s else is_running s \<and> end_node cfg \<notin> visited s)"

text \<open>
  Walks of the graph: from a node, a list of edges, each taken from the adjacency list
  of the node reached so far. A missing key has no edges. The cost of a walk is the sum
  of its weights.
\<close>

definition adj :: "config \<Rightarrow> node \<Rightarrow> edge list" where
  "adj cfg u = (case map_of (graph cfg) u of None \<Rightarrow> [] | Some es \<Rightarrow> es)"

fun is_walk :: "config \<Rightarrow> node \<Rightarrow> edge list \<Rightarrow> node \<Rightarrow> bool" where
  "is_walk cfg u [] v = (u = v)"
| "is_walk cfg u (e # es) v = (e \<in> set (adj cfg u) \<and> is_walk cfg (fst e) es v)"

definition cost :: "edge list \<Rightarrow> int" where
  "cost es = sum_list (map snd es)"

text \<open>
  Every finite distance of the table is the cost of a walk from the start node, every
  visited node has a finite distance, and a finished engine shows the status that
  \<open>_finish\<close> chose from the final distance of the end node.
\<close>

definition sound_inv :: "config \<Rightarrow> engine \<Rightarrow> bool" where
  "sound_inv cfg s \<longleftrightarrow>
     (\<forall>v x. dist s v = Some (Fin x) \<longrightarrow> (\<exists>es. is_walk cfg (start_node cfg) es v \<and> cost es = x)) \<and>
     (\<forall>v \<in> visited s. \<exists>x. dist s v = Some (Fin x)) \<and>
     (is_finished s \<longrightarrow>
        (\<exists>d. dist s (end_node cfg) = Some d \<and>
             status_label s = (if d < PosInf then ''Path found!'' else ''Target is unreachable.'')))"

text \<open>A graph whose end node \<open>G\<close> has no edge at all.\<close>

definition island_graph :: graph where
  "island_graph = [(''A'', [(''B'', 1)]), (''B'', [(''A'', 1)]), (''G'', [])]"

definition island :: config where
  "island = \<lparr> graph = island_graph, start_node = ''A'', end_node = ''G'',
              set_order = [''A'', ''B'', ''G''] \<rparr>"

text \<open>No edge of the graph has a negative weight.\<close>

definition nonneg :: "config \<Rightarrow> bool" where
  "nonneg cfg \<longleftrightarrow> (\<forall>u. \<forall>e \<in> set (adj cfg u). 0 \<le> snd e)"

text \<open>
  \<open>d\<close> is the shortest-path distance of \<open>v\<close>: the least cost of a walk from the start
  node, or infinite when there is no walk.
\<close>

definition shortest :: "config \<Rightarrow> node \<Rightarrow> dval \<Rightarrow> bool" where
  "shortest cfg v d =
     (case d of
        Fin x \<Rightarrow> (\<exists>es. is_walk cfg (start_node cfg) es v \<and> cost es = x) \<and>
                 (\<forall>es. is_walk cfg (start_node cfg) es v \<longrightarrow> x \<le> cost es)
      | PosInf \<Rightarrow> (\<forall>es. \<not> is_walk cfg (start_node cfg) es v))"

text \<open>
  The invariant of Dijkstra's algorithm: the distance of a visited node is a lower bound
  of every walk to it; until the end node is visited, every edge that leaves the visited
  set has been relaxed; a run that finished without visiting the end node left no
  unvisited node with a finite distance.
\<close>

definition opt_inv :: "config \<Rightarrow> engine \<Rightarrow> bool" where
  "opt_inv cfg s \<longleftrightarrow>
     (\<forall>v \<in> visited s. \<forall>x es. dist s v = Some (Fin x) \<longrightarrow> is_walk cfg (start_node cfg) es v \<longrightarrow> x \<le> cost es) \<and>
     (end_node cfg \<notin> visited s \<longrightarrow>
        (\<forall>u \<in> visited s. \<forall>x. \<forall>e \<in> set (adj cfg u). dist s u = Some (Fin x) \<longrightarrow> fst e \<notin> visited s \<longrightarrow>
           (\<exists>dv. dist s (fst e) = Some dv \<and> dv \<le> Fin (x + snd e)))) \<and>
     (is_finished s \<longrightarrow> end_node cfg \<notin> visited s \<longrightarrow>
        (\<forall>v x. v \<notin> visited s \<longrightarrow> dist s v \<noteq> Some (Fin x)))"

text \<open>
  The predecessor table: the start node has none; a recorded predecessor is a visited
  node from which an edge with the recorded distance difference leads to the node; every
  other node with a finite distance has a predecessor.
\<close>

definition tree_inv :: "config \<Rightarrow> engine \<Rightarrow> bool" where
  "tree_inv cfg s \<longleftrightarrow>
     prev s (start_node cfg) = Some None \<and>
     (\<forall>v p. prev s v = Some (Some p) \<longrightarrow>
        p \<in> visited s \<and>
        (\<exists>x w. dist s p = Some (Fin x) \<and> (v, w) \<in> set (adj cfg p) \<and> dist s v = Some (Fin (x + w)))) \<and>
     (\<forall>v x. dist s v = Some (Fin x) \<longrightarrow> v \<noteq> start_node cfg \<longrightarrow> (\<exists>p. prev s v = Some (Some p)))"

text \<open>
  \<open>chain pv v ps\<close>: following the predecessors \<open>pv\<close> from \<open>v\<close> visits the non-empty names
  \<open>ps\<close> and ends at a node without predecessor.
\<close>

inductive chain :: "(node \<rightharpoonup> node option) \<Rightarrow> node \<Rightarrow> node list \<Rightarrow> bool"
  for pv :: "node \<rightharpoonup> node option" where
  chain_end: "v \<noteq> [] \<Longrightarrow> pv v = Some None \<Longrightarrow> chain pv v [v]"
| chain_step: "v \<noteq> [] \<Longrightarrow> pv v = Some (Some p) \<Longrightarrow> chain pv p ps \<Longrightarrow> chain pv v (v # ps)"

text \<open>
  The cost of a path given by its nodes: between two consecutive nodes the cheapest of
  the parallel edges counts; \<open>None\<close> when the list is empty or two consecutive nodes are
  not joined by an edge. \<open>shown_cost\<close> is the cost of the highlighted path.
\<close>

definition edge_weight :: "config \<Rightarrow> node \<Rightarrow> node \<Rightarrow> int option" where
  "edge_weight cfg u v =
     (let ws = map snd (filter (\<lambda>e. fst e = v) (adj cfg u))
      in if ws = [] then None else Some (Min (set ws)))"

fun path_cost :: "config \<Rightarrow> node list \<Rightarrow> int option" where
  "path_cost cfg [] = None"
| "path_cost cfg [v] = Some 0"
| "path_cost cfg (u # v # ps) =
     (case edge_weight cfg u v of
        None \<Rightarrow> None
      | Some w \<Rightarrow> (case path_cost cfg (v # ps) of None \<Rightarrow> None | Some c \<Rightarrow> Some (w + c)))"


text \<open>
  From every visited node the predecessors lead, without repetition and through visited
  nodes only, to the start node, along a path whose cost is the distance of the node.
\<close>

definition path_inv :: "config \<Rightarrow> engine \<Rightarrow> bool" where
  "path_inv cfg s \<longleftrightarrow>
     (\<forall>v \<in> visited s. \<exists>ps x. chain (prev s) v ps \<and> set ps \<subseteq> visited s \<and> distinct ps \<and>
         last ps = start_node cfg \<and> dist s v = Some (Fin x) \<and> path_cost cfg (rev ps) = Some x)"

text \<open>The invariants of a run, collected.\<close>

definition core_inv :: "config \<Rightarrow> algo \<Rightarrow> engine \<Rightarrow> bool" where
  "core_inv cfg a s \<longleftrightarrow>
     run_inv cfg a s \<and> sound_inv cfg s \<and> start_fixed cfg s \<and> opt_inv cfg s"

definition full_inv :: "config \<Rightarrow> algo \<Rightarrow> engine \<Rightarrow> bool" where
  "full_inv cfg a s \<longleftrightarrow> core_inv cfg a s \<and> tree_inv cfg s \<and> path_inv cfg s"


text \<open>
  A graph with a tie: B and G are both at distance 1 from A. The set order, one that
  CPython produces for these four keys, lists G before B.
\<close>

definition fork_graph :: graph where
  "fork_graph =
     [(''A'', [(''B'', 1), (''G'', 1)]),
      (''B'', [(''A'', 1), (''C'', 1)]),
      (''C'', [(''B'', 1)]),
      (''G'', [(''A'', 1)])]"

definition fork :: config where
  "fork = \<lparr> graph = fork_graph, start_node = ''A'', end_node = ''G'',
            set_order = [''G'', ''B'', ''C'', ''A''] \<rparr>"

text \<open>A graph with a node whose name is the empty string, between A and G.\<close>

definition blank_graph :: graph where
  "blank_graph =
     [(''A'', [('''', 1)]),
      ('''', [(''A'', 1), (''G'', 1)]),
      (''G'', [('''', 1)])]"

definition blank :: config where
  "blank = \<lparr> graph = blank_graph, start_node = ''A'', end_node = ''G'',
             set_order = ['''', ''A'', ''G''] \<rparr>"

text \<open>The shortest-path distances of the built-in graph from A.\<close>

definition builtin_shortest :: "node \<Rightarrow> int" where
  "builtin_shortest v =
     (if v = ''A'' then 0 else if v = ''B'' then 2 else if v = ''C'' then 5
      else if v = ''D'' then 3 else if v = ''E'' then 4 else if v = ''F'' then 7 else 6)"

section \<open>Basic facts about the operations\<close>

lemma relax_invariant:
  assumes "relax a u du es s = Inr s'"
    and "P s"
    and "\<And>t v w dn. P t \<Longrightarrow> (v, w) \<in> set es \<Longrightarrow> visited t = visited s \<Longrightarrow> v \<notin> visited s \<Longrightarrow>
            dist t v = Some dn \<Longrightarrow> dadd du w < dn \<Longrightarrow>
            P (t\<lparr> dist := (dist t)(v \<mapsto> dadd du w), prev := (prev t)(v \<mapsto> Some u),
                   pq := (if a = Heap then heappush (pq t) (dadd du w, v) else pq t) \<rparr>)"
  shows "P s'"
  using assms
proof (induction es arbitrary: s)
  case Nil
  then show ?case by simp
next
  case (Cons e es)
  obtain v w where e: "e = (v, w)" by (cases e)
  show ?case
  proof (cases "v \<in> visited s")
    case True
    with Cons.prems(1) e have "relax a u du es s = Inr s'" by simp
    then show ?thesis
      using Cons.prems(2) Cons.prems(3) by (intro Cons.IH[of s]) auto
  next
    case False
    with Cons.prems(1) e obtain dn where dn: "dist s v = Some dn"
      by (auto split: option.splits)
    show ?thesis
    proof (cases "dadd du w < dn")
      case True
      let ?t = "s\<lparr> dist := (dist s)(v \<mapsto> dadd du w), prev := (prev s)(v \<mapsto> Some u),
                   pq := (if a = Heap then heappush (pq s) (dadd du w, v) else pq s) \<rparr>"
      from Cons.prems(1) e False dn True have r: "relax a u du es ?t = Inr s'" by simp
      have Pt: "P ?t"
        by (rule Cons.prems(3)[OF Cons.prems(2) _ refl False dn True]) (simp add: e)
      show ?thesis
        using r Pt Cons.prems(3) by (intro Cons.IH[of ?t]) auto
    next
      case nlt: False
      with Cons.prems(1) e False dn have "relax a u du es s = Inr s'" by simp
      then show ?thesis
        using Cons.prems(2) Cons.prems(3) by (intro Cons.IH[of s]) auto
    qed
  qed
qed

lemma relax_frame:
  assumes "relax a u du es s = Inr s'"
  shows "visited s' = visited s \<and> unvisited s' = unvisited s \<and> current_node s' = current_node s
     \<and> is_running s' = is_running s \<and> is_finished s' = is_finished s \<and> start_time s' = start_time s
     \<and> status_label s' = status_label s \<and> step_button s' = step_button s"
  by (rule relax_invariant[OF assms]) auto

lemma relax_dist_mono:
  assumes "relax a u du es s = Inr s'" and "dist s v = Some x"
  shows "\<exists>x'. dist s' v = Some x' \<and> x' \<le> x"
proof (rule relax_invariant[OF assms(1), where P = "\<lambda>t. \<exists>x'. dist t v = Some x' \<and> x' \<le> x"])
  show "\<exists>x'. dist s v = Some x' \<and> x' \<le> x" using assms(2) by simp
next
  fix t v' w dn
  assume "\<exists>x'. dist t v = Some x' \<and> x' \<le> x" and "dist t v' = Some dn" and "dadd du w < dn"
  then show "\<exists>x'. dist (t\<lparr> dist := (dist t)(v' \<mapsto> dadd du w), prev := (prev t)(v' \<mapsto> Some u),
         pq := (if a = Heap then heappush (pq t) (dadd du w, v') else pq t) \<rparr>) v = Some x' \<and> x' \<le> x"
    by (cases "v = v'") auto
qed

lemma relax_visited_fixed:
  assumes "relax a u du es s = Inr s'" and "v \<in> visited s"
  shows "dist s' v = dist s v \<and> prev s' v = prev s v"
  by (rule relax_invariant[OF assms(1)]) (use assms(2) in \<open>auto\<close>)

lemma finish_eq:
  assumes "finish cfg s = Inr s'"
  shows "\<exists>d. dist s (end_node cfg) = Some d \<and>
     s' = s\<lparr> is_finished := True, is_running := False,
             status_label := (if d < PosInf then ''Path found!'' else ''Target is unreachable.''),
             step_button := ''disabled'' \<rparr>"
proof (cases "dist s (end_node cfg)")
  case None
  with assms show ?thesis by (simp add: finish_def)
next
  case (Some d)
  with assms have "s' = s\<lparr> is_finished := True, is_running := False,
             status_label := (if d < PosInf then ''Path found!'' else ''Target is unreachable.''),
             step_button := ''disabled'' \<rparr>"
    by (simp add: finish_def)
  with Some show ?thesis by blast
qed

lemma pick_heap_Exhausted:
  assumes "pick_heap s = Exhausted s0"
  shows "s0 = s\<lparr> pq := [] \<rparr> \<and> (\<forall>e \<in> set (pq s). snd e \<in> visited s)"
proof -
  from assms have "dropWhile (\<lambda>e. snd e \<in> visited s) (pq s) = []" and "s0 = s\<lparr> pq := [] \<rparr>"
    by (auto simp: pick_heap_def split: list.splits)
  then show ?thesis by (auto simp: dropWhile_eq_Nil_conv)
qed

lemma pick_heap_Chosen:
  assumes "pick_heap s = Chosen du u s0"
  shows "\<exists>q. dropWhile (\<lambda>e. snd e \<in> visited s) (pq s) = (du, u) # q \<and> s0 = s\<lparr> pq := q \<rparr>
     \<and> u \<notin> visited s \<and> (du, u) \<in> set (pq s)"
proof -
  from assms obtain q where q: "dropWhile (\<lambda>e. snd e \<in> visited s) (pq s) = (du, u) # q"
    and s0: "s0 = s\<lparr> pq := q \<rparr>"
    by (auto simp: pick_heap_def split: list.splits)
  from q have "u \<notin> visited s"
    using hd_dropWhile[of "\<lambda>e. snd e \<in> visited s" "pq s"] by auto
  moreover from q have "(du, u) \<in> set (pq s)"
    using set_dropWhileD[of "(du, u)" "\<lambda>e. snd e \<in> visited s" "pq s"] by simp
  ultimately show ?thesis using q s0 by blast
qed

lemma pick_heap_not_Raised: "pick_heap s \<noteq> Raised e"
  by (auto simp: pick_heap_def split: list.splits)

lemma min_scan_result:
  assumes "min_scan d best kb xs = Inr u" and "d best = kb" and "kb = Some k"
  shows "(u = best \<or> u \<in> set xs) \<and> (\<exists>du. d u = Some du \<and> du \<le> k \<and>
           (\<forall>v \<in> set xs. \<exists>dv. d v = Some dv \<and> du \<le> dv))"
  using assms
proof (induction xs arbitrary: best kb k)
  case Nil
  then show ?case by simp
next
  case (Cons x xs)
  from Cons.prems obtain kx where kx: "d x = Some kx"
    by (auto split: option.splits)
  show ?case
  proof (cases "kx < k")
    case True
    with Cons.prems kx have "min_scan d x (Some kx) xs = Inr u" by simp
    from Cons.IH[OF this kx refl] True kx show ?thesis by fastforce
  next
    case False
    with Cons.prems kx have "min_scan d best kb xs = Inr u" by simp
    from Cons.IH[OF this Cons.prems(2,3)] False kx show ?thesis by fastforce
  qed
qed

lemma py_min_None: "py_min d xs = Inr None \<Longrightarrow> xs = []"
  by (auto simp: py_min_def split: list.splits sum.splits)

lemma py_min_Some:
  assumes "py_min d xs = Inr (Some u)"
  shows "u \<in> set xs \<and> (\<forall>du. d u = Some du \<longrightarrow> (\<forall>v \<in> set xs. \<exists>dv. d v = Some dv \<and> du \<le> dv))"
proof -
  from assms obtain x ys where xs: "xs = x # ys" and m: "min_scan d x (d x) ys = Inr u"
    by (auto simp: py_min_def split: list.splits sum.splits)
  show ?thesis
  proof (cases "d x")
    case None
    with m have "ys = [] \<and> u = x" by (cases ys) (auto split: option.splits)
    with xs None show ?thesis by auto
  next
    case (Some k)
    from min_scan_result[OF m refl Some] xs Some show ?thesis by fastforce
  qed
qed

lemma pick_lin_Exhausted:
  assumes "pick_lin s = Exhausted s0"
  shows "s0 = s \<and> (\<forall>v \<in> set (unvisited s). dist s v = Some PosInf)"
proof (cases "py_min (dist s) (unvisited s)")
  case (Inl e)
  with assms show ?thesis by (simp add: pick_lin_def)
next
  case (Inr r)
  show ?thesis
  proof (cases r)
    case None
    with Inr have "unvisited s = []" by (simp add: py_min_None)
    with assms Inr None show ?thesis by (simp add: pick_lin_def)
  next
    case (Some u)
    with assms Inr have "dist s u = Some PosInf" and "s0 = s"
      by (auto simp: pick_lin_def split: option.splits if_splits)
    moreover from py_min_Some[of "dist s" "unvisited s" u] Inr Some
    have "\<forall>du. dist s u = Some du \<longrightarrow> (\<forall>v \<in> set (unvisited s). \<exists>dv. dist s v = Some dv \<and> du \<le> dv)"
      by simp
    ultimately have "\<forall>v \<in> set (unvisited s). \<exists>dv. dist s v = Some dv \<and> PosInf \<le> dv" by simp
    then have "\<forall>v \<in> set (unvisited s). dist s v = Some PosInf"
      by (metis dval.exhaust less_eq_dval.simps(3))
    with \<open>s0 = s\<close> show ?thesis by simp
  qed
qed

lemma pick_lin_Chosen:
  assumes "pick_lin s = Chosen du u s0"
  shows "s0 = s\<lparr> unvisited := removeAll u (unvisited s) \<rparr> \<and> u \<in> set (unvisited s)
     \<and> dist s u = Some du \<and> du \<noteq> PosInf
     \<and> (\<forall>v \<in> set (unvisited s). \<exists>dv. dist s v = Some dv \<and> du \<le> dv)"
proof -
  from assms have m: "py_min (dist s) (unvisited s) = Inr (Some u)"
    and rest: "dist s u = Some du" "du \<noteq> PosInf" "s0 = s\<lparr> unvisited := removeAll u (unvisited s) \<rparr>"
    by (auto simp: pick_lin_def split: sum.splits option.splits if_splits)
  from py_min_Some[OF m] rest show ?thesis by simp
qed

lemma step_cases [consumes 1, case_names Inert Exhausted Settled]:
  assumes "step cfg a s = Inr s'"
  obtains (Inert) "\<not> is_running s \<or> is_finished s" "s' = s"
  | (Exhausted) s0 where "is_running s" "\<not> is_finished s" "pick_next a s = Exhausted s0"
      "finish cfg s0 = Inr s'"
  | (Settled) du u s0 where "is_running s" "\<not> is_finished s" "pick_next a s = Chosen du u s0"
      "settle cfg a du u s0 = Inr s'"
  using assms by (auto simp: step_def split: if_splits pick.splits)

lemma settle_cases [consumes 1, case_names End Relaxed]:
  assumes "settle cfg a du u s0 = Inr s'"
  obtains (End) "u = end_node cfg"
      "finish cfg (s0\<lparr> current_node := Some u, visited := insert u (visited s0) \<rparr>) = Inr s'"
  | (Relaxed) es where "u \<noteq> end_node cfg" "map_of (graph cfg) u = Some es"
      "relax a u du es (s0\<lparr> current_node := Some u, visited := insert u (visited s0) \<rparr>) = Inr s'"
  using assms by (auto simp: settle_def Let_def split: if_splits option.splits)

lemma pick_next_Exhausted:
  assumes "pick_next a s = Exhausted s0"
  shows "dist s0 = dist s \<and> prev s0 = prev s \<and> visited s0 = visited s \<and> unvisited s0 = unvisited s
     \<and> set (pq s0) \<subseteq> set (pq s)"
  using assms pick_heap_Exhausted[of s s0] pick_lin_Exhausted[of s s0]
  by (auto simp: pick_next_def split: if_splits)

lemma pick_next_Chosen:
  assumes "pick_next a s = Chosen du u s0"
  shows "dist s0 = dist s \<and> prev s0 = prev s \<and> visited s0 = visited s \<and> set (pq s0) \<subseteq> set (pq s)
     \<and> is_running s0 = is_running s \<and> is_finished s0 = is_finished s"
proof (cases a)
  case Heap
  with assms have "pick_heap s = Chosen du u s0" by (simp add: pick_next_def)
  from pick_heap_Chosen[OF this] obtain q where
    q: "dropWhile (\<lambda>e. snd e \<in> visited s) (pq s) = (du, u) # q" and s0: "s0 = s\<lparr>pq := q\<rparr>" by blast
  have "set q \<subseteq> set (pq s)"
    using set_dropWhileD[of _ "\<lambda>e. snd e \<in> visited s" "pq s"] q by auto
  with s0 show ?thesis by simp
next
  case Lin
  with assms have "pick_lin s = Chosen du u s0" by (simp add: pick_next_def)
  from pick_lin_Chosen[OF this] show ?thesis by simp
qed

section \<open>One call of \<open>step\<close>\<close>

lemma step_dist_mono:
  assumes "step cfg a s = Inr s'" and "dist s v = Some x"
  shows "\<exists>x'. dist s' v = Some x' \<and> x' \<le> x"
  using assms(1)
proof (cases rule: step_cases)
  case Inert
  with assms(2) show ?thesis by simp
next
  case (Exhausted s0)
  from finish_eq[OF Exhausted(4)] pick_next_Exhausted[OF Exhausted(3)] assms(2)
  show ?thesis by auto
next
  case (Settled du u s0)
  note frame = pick_next_Chosen[OF Settled(3)]
  from Settled(4) show ?thesis
  proof (cases rule: settle_cases)
    case End
    from finish_eq[OF End(2)] frame assms(2) show ?thesis by auto
  next
    case (Relaxed es)
    from relax_dist_mono[OF Relaxed(3), of v x] frame assms(2) show ?thesis by simp
  qed
qed

lemma step_visited_fixed:
  assumes "step cfg a s = Inr s'" and "v \<in> visited s"
  shows "dist s' v = dist s v \<and> prev s' v = prev s v"
  using assms(1)
proof (cases rule: step_cases)
  case Inert
  then show ?thesis by simp
next
  case (Exhausted s0)
  from finish_eq[OF Exhausted(4)] pick_next_Exhausted[OF Exhausted(3)]
  show ?thesis by auto
next
  case (Settled du u s0)
  note frame = pick_next_Chosen[OF Settled(3)]
  from Settled(4) show ?thesis
  proof (cases rule: settle_cases)
    case End
    from finish_eq[OF End(2)] frame show ?thesis by auto
  next
    case (Relaxed es)
    from relax_visited_fixed[OF Relaxed(3), of v] frame assms(2) show ?thesis by simp
  qed
qed

lemma step_visited_mono:
  assumes "step cfg a s = Inr s'"
  shows "visited s \<subseteq> visited s'"
  using assms
proof (cases rule: step_cases)
  case Inert
  then show ?thesis by simp
next
  case (Exhausted s0)
  from finish_eq[OF Exhausted(4)] pick_next_Exhausted[OF Exhausted(3)]
  show ?thesis by auto
next
  case (Settled du u s0)
  note frame = pick_next_Chosen[OF Settled(3)]
  from Settled(4) show ?thesis
  proof (cases rule: settle_cases)
    case End
    from finish_eq[OF End(2)] frame show ?thesis by auto
  next
    case (Relaxed es)
    from relax_frame[OF Relaxed(3)] frame show ?thesis by auto
  qed
qed

lemma set_heappush: "set (heappush q x) = insert x (set q)"
  by (simp add: heappush_def set_insort_key)

lemma reset_start_fixed: "start_fixed cfg (reset cfg)"
  by (simp add: start_fixed_def reset_def)

lemma start_start_fixed:
  assumes "start_fixed cfg s"
  shows "start_fixed cfg (start cfg a now s)"
  using assms by (simp add: start_fixed_def start_def set_heappush)

lemma pick_next_Chosen_start:
  assumes "pick_next a s = Chosen du u s0" and "start_fixed cfg s" and "start_node cfg \<notin> visited s"
  shows "u = start_node cfg"
proof (cases a)
  case Heap
  with assms(1) have "pick_heap s = Chosen du u s0" by (simp add: pick_next_def)
  from pick_heap_Chosen[OF this] have "(du, u) \<in> set (pq s)" by blast
  with assms(2,3) show ?thesis by (auto simp: start_fixed_def)
next
  case Lin
  with assms(1) have "pick_lin s = Chosen du u s0" by (simp add: pick_next_def)
  from pick_lin_Chosen[OF this] have "dist s u = Some du" and "du \<noteq> PosInf" by simp_all
  then obtain d where "dist s u = Some (Fin d)" by (cases du) auto
  with assms(2,3) show ?thesis by (auto simp: start_fixed_def)
qed

lemma step_start_fixed:
  assumes "step cfg a s = Inr s'" and "start_fixed cfg s"
  shows "start_fixed cfg s'"
  using assms(1)
proof (cases rule: step_cases)
  case Inert
  with assms(2) show ?thesis by simp
next
  case (Exhausted s0)
  from finish_eq[OF Exhausted(4)] pick_next_Exhausted[OF Exhausted(3)] assms(2)
  show ?thesis by (auto simp: start_fixed_def)
next
  case (Settled du u s0)
  have d0: "dist s (start_node cfg) = Some (Fin 0)" using assms(2) by (simp add: start_fixed_def)
  have "start_node cfg \<in> visited s'"
  proof (cases "start_node cfg \<in> visited s")
    case True
    with step_visited_mono[OF assms(1)] show ?thesis by auto
  next
    case False
    from pick_next_Chosen_start[OF Settled(3) assms(2) False] have u: "u = start_node cfg" .
    from Settled(4) show ?thesis
    proof (cases rule: settle_cases)
      case End
      from finish_eq[OF End(2)] u show ?thesis by auto
    next
      case (Relaxed es)
      from relax_frame[OF Relaxed(3)] u show ?thesis by simp
    qed
  qed
  moreover have "dist s' (start_node cfg) = Some (Fin 0)"
  proof (cases "start_node cfg \<in> visited s")
    case True
    from step_visited_fixed[OF assms(1) True] d0 show ?thesis by simp
  next
    case False
    from pick_next_Chosen_start[OF Settled(3) assms(2) False] have u: "u = start_node cfg" .
    note frame = pick_next_Chosen[OF Settled(3)]
    from Settled(4) show ?thesis
    proof (cases rule: settle_cases)
      case End
      from finish_eq[OF End(2)] frame d0 show ?thesis by auto
    next
      case (Relaxed es)
      from relax_visited_fixed[OF Relaxed(3), of "start_node cfg"] u frame d0 show ?thesis by simp
    qed
  qed
  ultimately show ?thesis by (simp add: start_fixed_def)
qed

lemma reachable_start_fixed: "reachable cfg s \<Longrightarrow> start_fixed cfg s"
  by (induction rule: reachable.induct)
     (auto intro: reset_start_fixed start_start_fixed step_start_fixed)

text \<open>
  C3. Across a call of \<open>step\<close>, whatever the algorithm selected, no tentative distance
  increases, the distance and the predecessor of a node already in \<open>visited\<close> stay as
  they are and the node stays in \<open>visited\<close> (so this holds for every later step too), and
  in every state the object reaches after \<open>reset\<close> the distance of the start node is \<open>0\<close>.
\<close>

theorem step_distances_monotone:
  assumes "reachable cfg s" and "step cfg a s = Inr s'"
  shows "(\<forall>x. dist s v = Some x \<longrightarrow> (\<exists>x'. dist s' v = Some x' \<and> x' \<le> x))
       \<and> (v \<in> visited s \<longrightarrow> dist s' v = dist s v \<and> prev s' v = prev s v)
       \<and> visited s \<subseteq> visited s'
       \<and> dist s (start_node cfg) = Some (Fin 0)
       \<and> dist s' (start_node cfg) = Some (Fin 0)"
proof -
  have "reachable cfg s'" using assms by (rule after_step)
  then have "start_fixed cfg s'" by (rule reachable_start_fixed)
  moreover have "start_fixed cfg s" using assms(1) by (rule reachable_start_fixed)
  ultimately show ?thesis
    using step_dist_mono[OF assms(2), of v] step_visited_fixed[OF assms(2), of v]
      step_visited_mono[OF assms(2)]
    by (simp add: start_fixed_def)
qed

theorem step_distances_monotone_witness:
  "\<exists>s s'. reachable (builtin builtin_order) s \<and> step (builtin builtin_order) Heap s = Inr s'
     \<and> ''A'' \<in> visited s' \<and> dist s ''B'' = Some PosInf
     \<and> (\<exists>x'. dist s' ''B'' = Some x' \<and> x' \<le> PosInf)
     \<and> dist s ''A'' = Some (Fin 0) \<and> dist s' ''A'' = Some (Fin 0)"
proof -
  let ?c = "builtin builtin_order"
  let ?s = "start ?c Heap 0 (reset ?c)"
  have r: "reachable ?c ?s" by (intro after_start after_reset)
  have "case step ?c Heap ?s of Inr s' \<Rightarrow> ''A'' \<in> visited s' | Inl _ \<Rightarrow> False" by code_simp
  then obtain s' where st: "step ?c Heap ?s = Inr s'" and v: "''A'' \<in> visited s'"
    by (auto split: sum.splits)
  have b: "dist ?s ''B'' = Some PosInf" by code_simp
  have a: "start_node ?c = ''A''" by (simp add: builtin_def)
  from step_distances_monotone[OF r st, of "''B''"] a b
  have "(\<exists>x'. dist s' ''B'' = Some x' \<and> x' \<le> PosInf)
     \<and> dist ?s ''A'' = Some (Fin 0) \<and> dist s' ''A'' = Some (Fin 0)" by simp
  with r st v b show ?thesis by blast
qed

text \<open>
  C5. Outside a run (\<open>is_running\<close> false, or \<open>is_finished\<close> true) \<open>step\<close> raises
  nothing and leaves every field as it was.
\<close>

theorem step_inert_outside_run:
  assumes "\<not> is_running s \<or> is_finished s"
  shows "step cfg a s = Inr s"
  using assms by (simp add: step_def)

theorem step_inert_outside_run_witness:
  "\<not> is_running (reset (builtin builtin_order))
   \<and> step (builtin builtin_order) Lin (reset (builtin builtin_order)) = Inr (reset (builtin builtin_order))"
  using step_inert_outside_run[of "reset (builtin builtin_order)" "builtin builtin_order" Lin]
  by (simp add: reset_def)

lemma start_while_running: "is_running s \<Longrightarrow> start cfg a now s = s"
  by (simp add: start_def)

text \<open>
  C4. \<open>start\<close> returns at once only when \<open>is_running\<close> is set. On the built-in graph,
  after a heap run has finished (\<open>is_finished\<close> set, \<open>is_running\<close> cleared), a further
  \<open>start\<close> is not rejected: it pushes \<open>(0.0, 'A')\<close> on the queue, sets \<open>is_running\<close>,
  overwrites \<open>start_time\<close> and enables the Step button, while \<open>is_finished\<close> stays set.
\<close>

theorem start_after_finish_changes_state:
  "(case run (builtin builtin_order) Heap 5 of
      Some (Inr s) \<Rightarrow>
        is_finished s \<and> \<not> is_running s \<and> pq s = [(Fin 7, ''F'')] \<and> start_time s = 5
        \<and> step_button s = ''disabled''
        \<and> is_finished (start (builtin builtin_order) Heap 9 s)
        \<and> is_running (start (builtin builtin_order) Heap 9 s)
        \<and> pq (start (builtin builtin_order) Heap 9 s) = [(Fin 0, ''A''), (Fin 7, ''F'')]
        \<and> start_time (start (builtin builtin_order) Heap 9 s) = 9
        \<and> step_button (start (builtin builtin_order) Heap 9 s) = ''normal''
    | _ \<Rightarrow> False)"
  by code_simp

section \<open>The frontier of each algorithm\<close>

lemma in_set_dropWhile: "x \<in> set xs \<Longrightarrow> \<not> P x \<Longrightarrow> x \<in> set (dropWhile P xs)"
  by (induction xs) auto

lemma le_PosInf [simp]: "d \<le> PosInf"
  by (cases d) simp_all

lemma PosInf_le [simp]: "PosInf \<le> d \<longleftrightarrow> d = PosInf"
  by (cases d) simp_all

lemma le_Fin_cases: "d \<le> Fin x \<Longrightarrow> \<exists>y. d = Fin y \<and> y \<le> x"
  by (cases d) simp_all

lemma heap_inv_initial: "heap_inv (start cfg Heap now (reset cfg))"
  by (simp add: heap_inv_def start_def reset_def heappush_def)

lemma finish_frame:
  assumes "finish cfg s = Inr s'"
  shows "dist s' = dist s \<and> prev s' = prev s \<and> visited s' = visited s \<and> unvisited s' = unvisited s
     \<and> pq s' = pq s \<and> current_node s' = current_node s \<and> start_time s' = start_time s
     \<and> is_finished s' \<and> \<not> is_running s'"
  using finish_eq[OF assms] by auto

lemma heap_inv_cong:
  assumes "pq s' = pq s" and "dist s' = dist s" and "visited s' = visited s"
  shows "heap_inv s' = heap_inv s"
  by (simp add: heap_inv_def assms)

lemma heap_inv_finish:
  assumes "finish cfg s = Inr s'" and "heap_inv s"
  shows "heap_inv s'"
  using finish_frame[OF assms(1)] assms(2) heap_inv_cong[of s' s] by simp

lemma heap_pick_Exhausted:
  assumes "pick_heap s = Exhausted s0" and "heap_inv s"
  shows "heap_inv s0 \<and> (\<forall>v x. v \<notin> visited s \<longrightarrow> dist s v \<noteq> Some (Fin x))"
proof -
  from pick_heap_Exhausted[OF assms(1)]
  have s0: "s0 = s\<lparr> pq := [] \<rparr>" and stale: "\<forall>e \<in> set (pq s). snd e \<in> visited s" by simp_all
  have none: "\<forall>v x. v \<notin> visited s \<longrightarrow> dist s v \<noteq> Some (Fin x)"
  proof (intro allI impI notI)
    fix v x assume "v \<notin> visited s" and "dist s v = Some (Fin x)"
    with assms(2) have "(Fin x, v) \<in> set (pq s)" by (simp add: heap_inv_def)
    with stale \<open>v \<notin> visited s\<close> show False by auto
  qed
  with s0 show ?thesis by (simp add: heap_inv_def)
qed

lemma heap_pick_Chosen:
  assumes "pick_heap s = Chosen du u s0" and "heap_inv s"
  shows "u \<notin> visited s \<and> dist s u = Some du \<and> (\<exists>x. du = Fin x)
     \<and> (\<forall>v dv. v \<notin> visited s \<longrightarrow> dist s v = Some dv \<longrightarrow> du \<le> dv)
     \<and> heap_inv (s0\<lparr> current_node := Some u, visited := insert u (visited s0) \<rparr>)"
proof -
  let ?stale = "\<lambda>e. snd e \<in> visited s"
  from pick_heap_Chosen[OF assms(1)] obtain q where
    q: "dropWhile ?stale (pq s) = (du, u) # q" and s0: "s0 = s\<lparr> pq := q \<rparr>"
    and fresh: "u \<notin> visited s" and mem: "(du, u) \<in> set (pq s)" by blast
  from assms(2) have srt: "sorted (pq s)"
    and h1: "\<forall>e \<in> set (pq s). (\<exists>x. fst e = Fin x) \<and> (\<exists>dv. dist s (snd e) = Some dv \<and> dv \<le> fst e)"
    and h2: "\<forall>v x. v \<notin> visited s \<longrightarrow> dist s v = Some (Fin x) \<longrightarrow> (Fin x, v) \<in> set (pq s)"
    by (simp_all add: heap_inv_def)
  have "sorted (dropWhile ?stale (pq s))" using srt by (rule sorted_dropWhile)
  with q have sq: "sorted q" and least: "\<forall>e \<in> set q. (du, u) \<le> e" by simp_all
  have sub: "set q \<subseteq> set (pq s)"
    using set_dropWhileD[of _ ?stale "pq s"] q by auto
  have low: "du \<le> Fin z" if "v \<notin> visited s" and "dist s v = Some (Fin z)" for v z
  proof -
    from h2 that have "(Fin z, v) \<in> set (pq s)" by simp
    with that(1) have "(Fin z, v) \<in> set (dropWhile ?stale (pq s))" by (simp add: in_set_dropWhile)
    with q least have "(du, u) \<le> (Fin z, v)" by auto
    then show ?thesis by (auto simp: less_eq_prod_def)
  qed
  from h1 mem obtain x dv where x: "du = Fin x" and dv: "dist s u = Some dv" "dv \<le> du" by fastforce
  from dv x obtain y where y: "dv = Fin y" "y \<le> x" using le_Fin_cases by blast
  from low[OF fresh] dv y have "du \<le> Fin y" by simp
  with x y have du: "dist s u = Some du" using dv by simp
  have min: "\<forall>v dv. v \<notin> visited s \<longrightarrow> dist s v = Some dv \<longrightarrow> du \<le> dv"
  proof (intro allI impI)
    fix v dv assume "v \<notin> visited s" and "dist s v = Some dv"
    then show "du \<le> dv" using low[of v] by (cases dv) simp_all
  qed
  have "heap_inv (s0\<lparr> current_node := Some u, visited := insert u (visited s0) \<rparr>)"
    unfolding heap_inv_def
  proof (intro conjI allI impI ballI)
    show "sorted (pq (s0\<lparr> current_node := Some u, visited := insert u (visited s0) \<rparr>))"
      using sq s0 by simp
  next
    fix e assume "e \<in> set (pq (s0\<lparr> current_node := Some u, visited := insert u (visited s0) \<rparr>))"
    with s0 sub have "e \<in> set (pq s)" by auto
    with h1 s0 show "\<exists>x. fst e = Fin x" by simp
    from \<open>e \<in> set (pq s)\<close> h1 s0
    show "\<exists>dv. dist (s0\<lparr> current_node := Some u, visited := insert u (visited s0) \<rparr>) (snd e) = Some dv \<and> dv \<le> fst e"
      by simp
  next
    fix v z
    assume "v \<notin> visited (s0\<lparr> current_node := Some u, visited := insert u (visited s0) \<rparr>)"
      and "dist (s0\<lparr> current_node := Some u, visited := insert u (visited s0) \<rparr>) v = Some (Fin z)"
    with s0 have v: "v \<noteq> u" "v \<notin> visited s" "dist s v = Some (Fin z)" by simp_all
    with h2 have "(Fin z, v) \<in> set (pq s)" by simp
    with v(2) have "(Fin z, v) \<in> set (dropWhile ?stale (pq s))" by (simp add: in_set_dropWhile)
    with q v(1) have "(Fin z, v) \<in> set q" by simp
    with s0 show "(Fin z, v) \<in> set (pq (s0\<lparr> current_node := Some u, visited := insert u (visited s0) \<rparr>))"
      by simp
  qed
  with fresh du x min show ?thesis by blast
qed

lemma heap_inv_relax:
  assumes "relax Heap u (Fin x) es s = Inr s'" and "heap_inv s"
  shows "heap_inv s'"
proof (rule relax_invariant[OF assms(1), where P = heap_inv])
  show "heap_inv s" by fact
next
  fix t v w dn
  assume t: "heap_inv t" and dn: "dist t v = Some dn" and lt: "dadd (Fin x) w < dn"
  let ?d = "dadd (Fin x) w"
  let ?t = "t\<lparr> dist := (dist t)(v \<mapsto> ?d), prev := (prev t)(v \<mapsto> Some u),
               pq := (if Heap = Heap then heappush (pq t) (?d, v) else pq t) \<rparr>"
  from t have srt: "sorted (pq t)"
    and h1: "\<forall>e \<in> set (pq t). (\<exists>x. fst e = Fin x) \<and> (\<exists>dv. dist t (snd e) = Some dv \<and> dv \<le> fst e)"
    and h2: "\<forall>v x. v \<notin> visited t \<longrightarrow> dist t v = Some (Fin x) \<longrightarrow> (Fin x, v) \<in> set (pq t)"
    by (simp_all add: heap_inv_def)
  show "heap_inv ?t"
    unfolding heap_inv_def
  proof (intro conjI allI impI ballI)
    show "sorted (pq ?t)" using srt by (simp add: heappush_def sorted_insort)
  next
    fix e assume "e \<in> set (pq ?t)"
    then have e: "e = (?d, v) \<or> e \<in> set (pq t)" by (simp add: set_heappush)
    with h1 show "\<exists>x. fst e = Fin x" by auto
    show "\<exists>dv. dist ?t (snd e) = Some dv \<and> dv \<le> fst e"
    proof (cases "snd e = v")
      case True
      from e show ?thesis
      proof
        assume "e = (?d, v)" then show ?thesis by simp
      next
        assume "e \<in> set (pq t)"
        with h1 True dn have "dn \<le> fst e" by auto
        with lt True show ?thesis by simp
      qed
    next
      case False
      with e h1 show ?thesis by auto
    qed
  next
    fix v' z assume "v' \<notin> visited ?t" and "dist ?t v' = Some (Fin z)"
    then show "(Fin z, v') \<in> set (pq ?t)"
      using h2 by (cases "v' = v") (auto simp: set_heappush)
  qed
qed

lemma heap_inv_step:
  assumes "step cfg Heap s = Inr s'" and "heap_inv s"
  shows "heap_inv s'"
  using assms(1)
proof (cases rule: step_cases)
  case Inert
  with assms(2) show ?thesis by simp
next
  case (Exhausted s0)
  from Exhausted(3) have "pick_heap s = Exhausted s0" by (simp add: pick_next_def)
  from heap_pick_Exhausted[OF this assms(2)] heap_inv_finish[OF Exhausted(4)] show ?thesis by simp
next
  case (Settled du u s0)
  from Settled(3) have "pick_heap s = Chosen du u s0" by (simp add: pick_next_def)
  from heap_pick_Chosen[OF this assms(2)] obtain x where du: "du = Fin x"
    and inv1: "heap_inv (s0\<lparr> current_node := Some u, visited := insert u (visited s0) \<rparr>)" by blast
  from Settled(4) show ?thesis
  proof (cases rule: settle_cases)
    case End
    from heap_inv_finish[OF End(2) inv1] show ?thesis .
  next
    case (Relaxed es)
    from heap_inv_relax[OF Relaxed(3)[unfolded du] inv1] show ?thesis .
  qed
qed

lemma heap_inv_steps:
  assumes "steps n cfg Heap s = Inr s'" and "heap_inv s"
  shows "heap_inv s'"
  using assms
proof (induction n arbitrary: s)
  case 0
  then show ?case by simp
next
  case (Suc n)
  from Suc.prems(1) obtain t where t: "step cfg Heap s = Inr t" and r: "steps n cfg Heap t = Inr s'"
    by (auto split: sum.splits)
  from Suc.IH[OF r heap_inv_step[OF t Suc.prems(2)]] show ?case .
qed

text \<open>
  C9. In a heap run (Reset, Start and any number of Steps with the heap selected), the
  entry \<open>(d, u)\<close> that the selection of \<open>step\<close> pops after discarding the stale ones
  carries the current table distance of \<open>u\<close>, and \<open>u\<close> is not yet visited.
\<close>

theorem popped_priority_is_distance:
  assumes "steps n cfg Heap (start cfg Heap now (reset cfg)) = Inr s"
    and "pick_heap s = Chosen d u s0"
  shows "u \<notin> visited s \<and> dist s u = Some d"
proof -
  have "heap_inv s" using assms(1) heap_inv_initial by (rule heap_inv_steps)
  from heap_pick_Chosen[OF assms(2) this] show ?thesis by simp
qed

theorem popped_priority_is_distance_witness:
  "\<exists>s d u s0. steps 2 (builtin builtin_order) Heap (start (builtin builtin_order) Heap 0 (reset (builtin builtin_order))) = Inr s
     \<and> pick_heap s = Chosen d u s0 \<and> u \<notin> visited s \<and> dist s u = Some d"
proof -
  let ?c = "builtin builtin_order"
  have "case steps 2 ?c Heap (start ?c Heap 0 (reset ?c)) of
          Inr s \<Rightarrow> (case pick_heap s of Chosen d u s0 \<Rightarrow> True | _ \<Rightarrow> False)
        | Inl _ \<Rightarrow> False"
    by code_simp
  then obtain s d u s0 where st: "steps 2 ?c Heap (start ?c Heap 0 (reset ?c)) = Inr s"
    and pk: "pick_heap s = Chosen d u s0"
    by (auto split: sum.splits pick.splits)
  from popped_priority_is_distance[OF st pk] st pk show ?thesis by blast
qed

lemma lin_inv_reset:
  assumes "set (set_order cfg) = set (nodes cfg)"
  shows "lin_inv cfg (reset cfg)"
  using assms by (simp add: lin_inv_def reset_def)

lemma lin_inv_cong:
  assumes "visited s' = visited s" and "unvisited s' = unvisited s"
  shows "lin_inv cfg s' = lin_inv cfg s"
  by (simp add: lin_inv_def assms)

lemma lin_inv_start: "lin_inv cfg (start cfg a now s) = lin_inv cfg s"
  by (rule lin_inv_cong) (simp_all add: start_def)

lemma lin_pick_Chosen:
  assumes "pick_lin s = Chosen du u s0" and "lin_inv cfg s"
  shows "u \<notin> visited s \<and> u \<in> set (nodes cfg)
     \<and> lin_inv cfg (s0\<lparr> current_node := Some u, visited := insert u (visited s0) \<rparr>)"
proof -
  from pick_lin_Chosen[OF assms(1)]
  have s0: "s0 = s\<lparr> unvisited := removeAll u (unvisited s) \<rparr>" and u: "u \<in> set (unvisited s)"
    by simp_all
  from assms(2) have d: "visited s \<inter> set (unvisited s) = {}"
    and c: "visited s \<union> set (unvisited s) = set (nodes cfg)" by (simp_all add: lin_inv_def)
  from u d c have "u \<notin> visited s" "u \<in> set (nodes cfg)" by auto
  moreover have "lin_inv cfg (s0\<lparr> current_node := Some u, visited := insert u (visited s0) \<rparr>)"
    using s0 u d c by (auto simp: lin_inv_def)
  ultimately show ?thesis by simp
qed

lemma lin_inv_step:
  assumes "step cfg Lin s = Inr s'" and "lin_inv cfg s"
  shows "lin_inv cfg s'"
  using assms(1)
proof (cases rule: step_cases)
  case Inert
  with assms(2) show ?thesis by simp
next
  case (Exhausted s0)
  from finish_frame[OF Exhausted(4)] pick_next_Exhausted[OF Exhausted(3)] assms(2)
    lin_inv_cong[of s' s cfg]
  show ?thesis by simp
next
  case (Settled du u s0)
  from Settled(3) have "pick_lin s = Chosen du u s0" by (simp add: pick_next_def)
  from lin_pick_Chosen[OF this assms(2)]
  have inv1: "lin_inv cfg (s0\<lparr> current_node := Some u, visited := insert u (visited s0) \<rparr>)" by simp
  from Settled(4) show ?thesis
  proof (cases rule: settle_cases)
    case End
    from finish_frame[OF End(2)] inv1 lin_inv_cong[of s' _ cfg] show ?thesis by blast
  next
    case (Relaxed es)
    from relax_frame[OF Relaxed(3)] inv1 lin_inv_cong[of s' _ cfg] show ?thesis by blast
  qed
qed

lemma lin_inv_steps:
  assumes "steps n cfg Lin s = Inr s'" and "lin_inv cfg s"
  shows "lin_inv cfg s'"
  using assms
proof (induction n arbitrary: s)
  case 0
  then show ?case by simp
next
  case (Suc n)
  from Suc.prems(1) obtain t where t: "step cfg Lin s = Inr t" and r: "steps n cfg Lin t = Inr s'"
    by (auto split: sum.splits)
  from Suc.IH[OF r lin_inv_step[OF t Suc.prems(2)]] show ?case .
qed

lemma step_heap_unvisited:
  assumes "step cfg Heap s = Inr s'"
  shows "unvisited s' = unvisited s"
  using assms
proof (cases rule: step_cases)
  case Inert
  then show ?thesis by simp
next
  case (Exhausted s0)
  from finish_frame[OF Exhausted(4)] pick_next_Exhausted[OF Exhausted(3)] show ?thesis by simp
next
  case (Settled du u s0)
  from Settled(3) have "pick_heap s = Chosen du u s0" by (simp add: pick_next_def)
  from pick_heap_Chosen[OF this] have u0: "unvisited s0 = unvisited s" by auto
  from Settled(4) show ?thesis
  proof (cases rule: settle_cases)
    case End
    from finish_frame[OF End(2)] u0 show ?thesis by simp
  next
    case (Relaxed es)
    from relax_frame[OF Relaxed(3)] u0 show ?thesis by simp
  qed
qed

lemma relax_ignores_unvisited:
  "relax a u du es (s\<lparr> unvisited := xs \<rparr>) =
     (case relax a u du es s of Inl e \<Rightarrow> Inl e | Inr t \<Rightarrow> Inr (t\<lparr> unvisited := xs \<rparr>))"
proof (induction es arbitrary: s)
  case Nil
  show ?case by simp
next
  case (Cons e es)
  obtain v w where e: "e = (v, w)" by (cases e)
  show ?case
  proof (cases "v \<in> visited s")
    case True
    then show ?thesis using Cons.IH[of s] by (simp add: e)
  next
    case False
    show ?thesis
    proof (cases "dist s v")
      case None
      with False show ?thesis by (simp add: e)
    next
      case (Some dn)
      show ?thesis
      proof (cases "dadd du w < dn")
        case True
        let ?t = "s\<lparr> dist := (dist s)(v \<mapsto> dadd du w), prev := (prev s)(v \<mapsto> Some u),
                     pq := (if a = Heap then heappush (pq s) (dadd du w, v) else pq s) \<rparr>"
        have 1: "relax a u du (e # es) s = relax a u du es ?t"
          using False Some True by (simp add: e)
        have 2: "relax a u du (e # es) (s\<lparr> unvisited := xs \<rparr>) =
            relax a u du es
              ((s\<lparr> unvisited := xs \<rparr>)\<lparr> dist := (dist s)(v \<mapsto> dadd du w),
                 prev := (prev s)(v \<mapsto> Some u),
                 pq := (if a = Heap then heappush (pq s) (dadd du w, v) else pq s) \<rparr>)"
          using False Some True by (simp add: e)
        have eq: "(s\<lparr> unvisited := xs \<rparr>)\<lparr> dist := (dist s)(v \<mapsto> dadd du w),
                 prev := (prev s)(v \<mapsto> Some u),
                 pq := (if a = Heap then heappush (pq s) (dadd du w, v) else pq s) \<rparr> =
              ?t\<lparr> unvisited := xs \<rparr>"
          by simp
        show ?thesis unfolding 1 2 eq by (rule Cons.IH)
      next
        case nlt: False
        with False Some show ?thesis using Cons.IH[of s] by (simp add: e)
      qed
    qed
  qed
qed

lemma finish_ignores_unvisited:
  "finish cfg (s\<lparr> unvisited := xs \<rparr>) =
     (case finish cfg s of Inl e \<Rightarrow> Inl e | Inr t \<Rightarrow> Inr (t\<lparr> unvisited := xs \<rparr>))"
  by (simp add: finish_def split: option.splits)

lemma settle_ignores_unvisited:
  "settle cfg a du u (s\<lparr> unvisited := xs \<rparr>) =
     (case settle cfg a du u s of Inl e \<Rightarrow> Inl e | Inr t \<Rightarrow> Inr (t\<lparr> unvisited := xs \<rparr>))"
proof -
  let ?s1 = "s\<lparr> current_node := Some u, visited := insert u (visited s) \<rparr>"
  have eq: "(s\<lparr> unvisited := xs \<rparr>)\<lparr> current_node := Some u,
              visited := insert u (visited (s\<lparr> unvisited := xs \<rparr>)) \<rparr> = ?s1\<lparr> unvisited := xs \<rparr>"
    by simp
  show ?thesis
    unfolding settle_def Let_def eq
    by (simp only: finish_ignores_unvisited relax_ignores_unvisited split: option.splits if_splits)
       simp
qed

lemma step_heap_ignores_unvisited:
  "step cfg Heap (s\<lparr> unvisited := xs \<rparr>) =
     (case step cfg Heap s of Inl e \<Rightarrow> Inl e | Inr t \<Rightarrow> Inr (t\<lparr> unvisited := xs \<rparr>))"
proof (cases "\<not> is_running s \<or> is_finished s")
  case True
  then show ?thesis by (auto simp: step_def)
next
  case active: False
  show ?thesis
  proof (cases "dropWhile (\<lambda>e. snd e \<in> visited s) (pq s)")
    case Nil
    have eq: "(s\<lparr> unvisited := xs \<rparr>)\<lparr> pq := [] \<rparr> = (s\<lparr> pq := [] \<rparr>)\<lparr> unvisited := xs \<rparr>" by simp
    have 1: "step cfg Heap s = finish cfg (s\<lparr> pq := [] \<rparr>)"
      using active by (simp add: step_def pick_next_def pick_heap_def Nil)
    have 2: "step cfg Heap (s\<lparr> unvisited := xs \<rparr>) = finish cfg ((s\<lparr> unvisited := xs \<rparr>)\<lparr> pq := [] \<rparr>)"
      using active by (simp add: step_def pick_next_def pick_heap_def Nil)
    show ?thesis unfolding 1 2 eq by (rule finish_ignores_unvisited)
  next
    case (Cons e q)
    obtain d u where e: "e = (d, u)" by (cases e)
    have 1: "step cfg Heap s = settle cfg Heap d u (s\<lparr> pq := q \<rparr>)"
      using active by (simp add: step_def pick_next_def pick_heap_def Cons e)
    have eq: "(s\<lparr> unvisited := xs \<rparr>)\<lparr> pq := q \<rparr> = (s\<lparr> pq := q \<rparr>)\<lparr> unvisited := xs \<rparr>" by simp
    have 2: "step cfg Heap (s\<lparr> unvisited := xs \<rparr>) = settle cfg Heap d u ((s\<lparr> unvisited := xs \<rparr>)\<lparr> pq := q \<rparr>)"
      using active by (simp add: step_def pick_next_def pick_heap_def Cons e)
    show ?thesis unfolding 1 2 eq by (rule settle_ignores_unvisited)
  qed
qed

text \<open>
  C10. With the linear scan selected, after \<open>reset\<close> and after every \<open>step\<close> of the run
  the sets \<open>visited\<close> and \<open>unvisited\<close> are disjoint and together hold every node of the
  graph. With the heap selected, \<open>start\<close> and \<open>step\<close> leave \<open>unvisited\<close> as it is, and
  what \<open>step\<close> does is the same whatever \<open>unvisited\<close> holds.
\<close>

theorem unvisited_partition:
  assumes "set (set_order cfg) = set (nodes cfg)"
  shows "lin_inv cfg (reset cfg)
     \<and> (\<forall>n s. steps n cfg Lin (start cfg Lin now (reset cfg)) = Inr s \<longrightarrow> lin_inv cfg s)
     \<and> unvisited (start cfg Heap now t) = unvisited t
     \<and> (\<forall>s'. step cfg Heap t = Inr s' \<longrightarrow> unvisited s' = unvisited t)
     \<and> step cfg Heap (t\<lparr> unvisited := xs \<rparr>) =
          (case step cfg Heap t of Inl e \<Rightarrow> Inl e | Inr t' \<Rightarrow> Inr (t'\<lparr> unvisited := xs \<rparr>))"
proof -
  have r: "lin_inv cfg (reset cfg)" using assms by (rule lin_inv_reset)
  then have "lin_inv cfg (start cfg Lin now (reset cfg))" by (simp add: lin_inv_start)
  then have "\<forall>n s. steps n cfg Lin (start cfg Lin now (reset cfg)) = Inr s \<longrightarrow> lin_inv cfg s"
    using lin_inv_steps by blast
  moreover have "unvisited (start cfg Heap now t) = unvisited t" by (simp add: start_def)
  ultimately show ?thesis
    using r step_heap_unvisited[of cfg t] step_heap_ignores_unvisited[where cfg = cfg and s = t and xs = xs] by blast
qed

theorem unvisited_partition_witness:
  "set (set_order (builtin builtin_order)) = set (nodes (builtin builtin_order))
   \<and> (\<exists>s. steps 2 (builtin builtin_order) Lin
               (start (builtin builtin_order) Lin 0 (reset (builtin builtin_order))) = Inr s
          \<and> visited s \<inter> set (unvisited s) = {}
          \<and> visited s \<union> set (unvisited s) = set (nodes (builtin builtin_order)))"
proof -
  let ?c = "builtin builtin_order"
  have h: "set (set_order ?c) = set (nodes ?c)"
    by (auto simp: builtin_def builtin_order_def nodes_def builtin_graph_def)
  have "case steps 2 ?c Lin (start ?c Lin 0 (reset ?c)) of Inr _ \<Rightarrow> True | Inl _ \<Rightarrow> False"
    by code_simp
  then obtain s where st: "steps 2 ?c Lin (start ?c Lin 0 (reset ?c)) = Inr s"
    by (auto split: sum.splits)
  from unvisited_partition[OF h, where now = 0] st have "lin_inv ?c s" by blast
  with h st show ?thesis unfolding lin_inv_def by blast
qed

section \<open>Runs of a well-formed configuration\<close>

lemma keys_inv_cong:
  assumes "dist s' = dist s" and "prev s' = prev s" and "visited s' = visited s"
  shows "keys_inv cfg s' = keys_inv cfg s"
  by (simp add: keys_inv_def assms)

lemma frontier_inv_cong:
  assumes "dist s' = dist s" and "visited s' = visited s" and "unvisited s' = unvisited s"
    and "pq s' = pq s"
  shows "frontier_inv cfg a s' = frontier_inv cfg a s"
  using assms heap_inv_cong[of s' s] lin_inv_cong[of s' s cfg]
  by (simp add: frontier_inv_def split: algo.splits)

lemma run_inv_initial:
  assumes "wf_config cfg"
  shows "run_inv cfg a (start cfg a now (reset cfg))"
proof -
  have k: "keys_inv cfg (start cfg a now (reset cfg))"
    using assms by (auto simp: keys_inv_def start_def reset_def wf_config_def)
  have f: "frontier_inv cfg a (start cfg a now (reset cfg))"
  proof (cases a)
    case Heap
    then show ?thesis by (simp add: frontier_inv_def heap_inv_initial)
  next
    case Lin
    from assms have "lin_inv cfg (reset cfg)" by (simp add: lin_inv_reset wf_config_def)
    with Lin show ?thesis by (simp add: frontier_inv_def lin_inv_start)
  qed
  have "is_running (start cfg a now (reset cfg))" "\<not> is_finished (start cfg a now (reset cfg))"
    "visited (start cfg a now (reset cfg)) = {}"
    by (simp_all add: start_def reset_def)
  with k f show ?thesis by (simp add: run_inv_def)
qed

lemma min_scan_total:
  assumes "\<forall>x \<in> set xs. d x \<noteq> None" and "kb \<noteq> None"
  shows "\<exists>u. min_scan d best kb xs = Inr u"
  using assms
proof (induction xs arbitrary: best kb)
  case Nil
  then show ?case by simp
next
  case (Cons x xs)
  from Cons.prems obtain kx k where kx: "d x = Some kx" and k: "kb = Some k" by auto
  show ?case
  proof (cases "kx < k")
    case True
    with kx k Cons.IH[of "Some kx" x] Cons.prems(1) show ?thesis by simp
  next
    case False
    with kx k Cons.IH[of kb best] Cons.prems show ?thesis by simp
  qed
qed

lemma py_min_total:
  assumes "\<forall>x \<in> set xs. d x \<noteq> None"
  shows "\<exists>r. py_min d xs = Inr r"
proof (cases xs)
  case Nil
  then show ?thesis by (simp add: py_min_def)
next
  case (Cons x ys)
  with assms have "d x \<noteq> None" and "\<forall>y \<in> set ys. d y \<noteq> None" by simp_all
  from min_scan_total[OF this(2,1), of x] Cons show ?thesis by (auto simp: py_min_def)
qed

lemma pick_next_not_Raised:
  assumes "frontier_inv cfg a s" and "keys_inv cfg s"
  shows "pick_next a s \<noteq> Raised e"
proof (cases a)
  case Heap
  then show ?thesis by (simp add: pick_next_def pick_heap_not_Raised)
next
  case Lin
  with assms(1) have "set (unvisited s) \<subseteq> set (nodes cfg)"
    by (auto simp: frontier_inv_def lin_inv_def)
  with assms(2) have d: "\<forall>x \<in> set (unvisited s). dist s x \<noteq> None"
    by (auto simp: keys_inv_def)
  from py_min_total[OF d] obtain r where r: "py_min (dist s) (unvisited s) = Inr r" by blast
  show ?thesis
  proof (cases r)
    case None
    with r Lin show ?thesis by (simp add: pick_next_def pick_lin_def)
  next
    case (Some u)
    with py_min_Some[of "dist s" "unvisited s" u] r have "u \<in> set (unvisited s)" by simp
    with d obtain du where "dist s u = Some du" by auto
    with r Some Lin show ?thesis by (simp add: pick_next_def pick_lin_def)
  qed
qed

lemma pick_next_Exhausted_inf:
  assumes "pick_next a s = Exhausted s0" and "frontier_inv cfg a s" and "keys_inv cfg s"
  shows "(\<forall>v x. v \<notin> visited s \<longrightarrow> dist s v \<noteq> Some (Fin x)) \<and> frontier_inv cfg a s0"
proof (cases a)
  case Heap
  with assms(1,2) have "pick_heap s = Exhausted s0" "heap_inv s"
    by (simp_all add: pick_next_def frontier_inv_def)
  from heap_pick_Exhausted[OF this] Heap show ?thesis by (simp add: frontier_inv_def)
next
  case Lin
  with assms(1,2) have p: "pick_lin s = Exhausted s0" and l: "lin_inv cfg s"
    by (simp_all add: pick_next_def frontier_inv_def)
  from pick_lin_Exhausted[OF p] have s0: "s0 = s"
    and inf: "\<forall>v \<in> set (unvisited s). dist s v = Some PosInf" by simp_all
  have "\<forall>v x. v \<notin> visited s \<longrightarrow> dist s v \<noteq> Some (Fin x)"
  proof (intro allI impI notI)
    fix v x assume v: "v \<notin> visited s" and d: "dist s v = Some (Fin x)"
    from d assms(3) have "v \<in> set (nodes cfg)" by (auto simp: keys_inv_def)
    with v l have "v \<in> set (unvisited s)" by (auto simp: lin_inv_def)
    with inf d show False by simp
  qed
  with s0 assms(2) show ?thesis by simp
qed

lemma pick_next_Chosen_min:
  assumes "pick_next a s = Chosen du u s0" and "frontier_inv cfg a s" and "keys_inv cfg s"
  shows "u \<notin> visited s \<and> u \<in> set (nodes cfg) \<and> dist s u = Some du \<and> (\<exists>x. du = Fin x)
     \<and> (\<forall>v dv. v \<notin> visited s \<longrightarrow> dist s v = Some dv \<longrightarrow> du \<le> dv)
     \<and> frontier_inv cfg a (s0\<lparr> current_node := Some u, visited := insert u (visited s0) \<rparr>)"
proof (cases a)
  case Heap
  with assms(1,2) have "pick_heap s = Chosen du u s0" "heap_inv s"
    by (simp_all add: pick_next_def frontier_inv_def)
  from heap_pick_Chosen[OF this]
  have r: "u \<notin> visited s" "dist s u = Some du" "\<exists>x. du = Fin x"
    "\<forall>v dv. v \<notin> visited s \<longrightarrow> dist s v = Some dv \<longrightarrow> du \<le> dv"
    "heap_inv (s0\<lparr> current_node := Some u, visited := insert u (visited s0) \<rparr>)"
    by blast+
  from r(2) assms(3) have "u \<in> set (nodes cfg)" by (auto simp: keys_inv_def)
  with r Heap show ?thesis by (simp add: frontier_inv_def)
next
  case Lin
  with assms(1,2) have p: "pick_lin s = Chosen du u s0" and l: "lin_inv cfg s"
    by (simp_all add: pick_next_def frontier_inv_def)
  from pick_lin_Chosen[OF p] have du: "dist s u = Some du" "du \<noteq> PosInf"
    and least: "\<forall>v \<in> set (unvisited s). \<exists>dv. dist s v = Some dv \<and> du \<le> dv" by simp_all
  from lin_pick_Chosen[OF p l] have r: "u \<notin> visited s" "u \<in> set (nodes cfg)"
    "lin_inv cfg (s0\<lparr> current_node := Some u, visited := insert u (visited s0) \<rparr>)" by simp_all
  from du(2) have fin: "\<exists>x. du = Fin x" by (cases du) simp_all
  have "\<forall>v dv. v \<notin> visited s \<longrightarrow> dist s v = Some dv \<longrightarrow> du \<le> dv"
  proof (intro allI impI)
    fix v dv assume v: "v \<notin> visited s" and d: "dist s v = Some dv"
    from d assms(3) have "v \<in> set (nodes cfg)" by (auto simp: keys_inv_def)
    with v l have "v \<in> set (unvisited s)" by (auto simp: lin_inv_def)
    with least d show "du \<le> dv" by auto
  qed
  with r du fin Lin show ?thesis by (simp add: frontier_inv_def)
qed

lemma relax_keys_inv:
  assumes "relax a u du es s = Inr s'" and "keys_inv cfg s"
  shows "keys_inv cfg s'"
proof (rule relax_invariant[OF assms(1), where P = "keys_inv cfg"])
  show "keys_inv cfg s" by fact
next
  fix t v w dn
  assume "keys_inv cfg t" and "dist t v = Some dn"
  then show "keys_inv cfg (t\<lparr> dist := (dist t)(v \<mapsto> dadd du w), prev := (prev t)(v \<mapsto> Some u),
       pq := (if a = Heap then heappush (pq t) (dadd du w, v) else pq t) \<rparr>)"
    by (auto simp: keys_inv_def)
qed

lemma relax_frontier_inv:
  assumes "relax a u (Fin x) es s = Inr s'" and "frontier_inv cfg a s"
  shows "frontier_inv cfg a s'"
proof (cases a)
  case Heap
  with assms heap_inv_relax[of u x es s s'] show ?thesis by (simp add: frontier_inv_def)
next
  case Lin
  from relax_frame[OF assms(1)] have "lin_inv cfg s' = lin_inv cfg s" by (intro lin_inv_cong) simp_all
  with assms(2) Lin show ?thesis by (simp add: frontier_inv_def)
qed

lemma relax_total:
  assumes "\<forall>e \<in> set es. fst e \<in> dom (dist s)"
  shows "\<exists>s'. relax a u du es s = Inr s'"
  using assms
proof (induction es arbitrary: s)
  case Nil
  show ?case by simp
next
  case (Cons e es)
  obtain v w where e: "e = (v, w)" by (cases e)
  from Cons.prems e obtain dn where dn: "dist s v = Some dn" by auto
  let ?t = "s\<lparr> dist := (dist s)(v \<mapsto> dadd du w), prev := (prev s)(v \<mapsto> Some u),
               pq := (if a = Heap then heappush (pq s) (dadd du w, v) else pq s) \<rparr>"
  from Cons.prems have "\<forall>e \<in> set es. fst e \<in> dom (dist s)" by simp
  from Cons.IH[OF this] obtain s1 where s1: "relax a u du es s = Inr s1" by blast
  from Cons.prems have "\<forall>e \<in> set es. fst e \<in> dom (dist ?t)" by simp
  from Cons.IH[OF this] obtain s2 where s2: "relax a u du es ?t = Inr s2" by blast
  show ?case
    using dn s1 s2 by (simp add: e)
qed

lemma finish_total:
  assumes "end_node cfg \<in> dom (dist s)"
  shows "\<exists>s'. finish cfg s = Inr s'"
  using assms by (auto simp: finish_def)

lemma step_active_cases [consumes 3, case_names Exhausted End Relaxed]:
  assumes "step cfg a s = Inr s'" and "run_inv cfg a s" and "\<not> is_finished s"
  obtains
    (Exhausted) s0 where "finish cfg s0 = Inr s'" "dist s0 = dist s" "prev s0 = prev s"
      "visited s0 = visited s" "\<forall>v x. v \<notin> visited s \<longrightarrow> dist s v \<noteq> Some (Fin x)"
      "frontier_inv cfg a s0"
  | (End) x s1 where "finish cfg s1 = Inr s'" "dist s1 = dist s" "prev s1 = prev s"
      "visited s1 = insert (end_node cfg) (visited s)" "dist s (end_node cfg) = Some (Fin x)"
      "\<forall>v dv. v \<notin> visited s \<longrightarrow> dist s v = Some dv \<longrightarrow> Fin x \<le> dv"
      "frontier_inv cfg a s1"
  | (Relaxed) u x s1 es where "u \<noteq> end_node cfg" "u \<notin> visited s" "u \<in> set (nodes cfg)"
      "map_of (graph cfg) u = Some es" "relax a u (Fin x) es s1 = Inr s'"
      "dist s1 = dist s" "prev s1 = prev s" "visited s1 = insert u (visited s)"
      "dist s u = Some (Fin x)"
      "\<forall>v dv. v \<notin> visited s \<longrightarrow> dist s v = Some dv \<longrightarrow> Fin x \<le> dv"
      "frontier_inv cfg a s1" "is_running s1" "\<not> is_finished s1"
proof -
  from assms(2) have k: "keys_inv cfg s" and f: "frontier_inv cfg a s" and r: "is_running s"
    using assms(3) by (simp_all add: run_inv_def)
  from assms(1) show thesis
  proof (cases rule: step_cases)
    case Inert
    with r assms(3) show ?thesis by simp
  next
    case exh: (Exhausted s0)
    from pick_next_Exhausted[OF exh(3)] pick_next_Exhausted_inf[OF exh(3) f k] exh(4)
    show ?thesis by (intro Exhausted[of s0]) simp_all
  next
    case (Settled du u s0)
    note frame = pick_next_Chosen[OF Settled(3)]
    from pick_next_Chosen_min[OF Settled(3) f k] obtain x where du: "du = Fin x"
      and u: "u \<notin> visited s" "u \<in> set (nodes cfg)" "dist s u = Some (Fin x)"
      and least: "\<forall>v dv. v \<notin> visited s \<longrightarrow> dist s v = Some dv \<longrightarrow> Fin x \<le> dv"
      and f1: "frontier_inv cfg a (s0\<lparr> current_node := Some u, visited := insert u (visited s0) \<rparr>)"
      by blast
    let ?s1 = "s0\<lparr> current_node := Some u, visited := insert u (visited s0) \<rparr>"
    from Settled(4) show ?thesis
    proof (cases rule: settle_cases)
      case e: End
      show ?thesis
        using e frame u least f1 by (intro End[of ?s1 x]) simp_all
    next
      case rel: (Relaxed es)
      show ?thesis
        using rel frame u least f1 r assms(3) du by (intro Relaxed[of u es x ?s1]) simp_all
    qed
  qed
qed

lemma step_run_inv:
  assumes "step cfg a s = Inr s'" and "run_inv cfg a s"
  shows "run_inv cfg a s'"
proof (cases "is_finished s")
  case True
  with assms(1) have "s' = s" by (simp add: step_def)
  with assms(2) show ?thesis by simp
next
  case False
  from assms(2) have k: "keys_inv cfg s" by (simp add: run_inv_def)
  from assms(1,2) False show ?thesis
  proof (cases rule: step_active_cases)
    case (Exhausted s0)
    note fr = finish_frame[OF Exhausted(1)]
    have "keys_inv cfg s'" using keys_inv_cong[of s' s cfg] fr Exhausted k by simp
    moreover have "frontier_inv cfg a s'"
      using frontier_inv_cong[of s' s0 cfg a] fr Exhausted(6) by simp
    ultimately show ?thesis using fr by (simp add: run_inv_def)
  next
    case (End x s1)
    note fr = finish_frame[OF End(1)]
    from End(5) k have "end_node cfg \<in> set (nodes cfg)" by (auto simp: keys_inv_def)
    with k End fr have "keys_inv cfg s'" by (simp add: keys_inv_def)
    moreover have "frontier_inv cfg a s'"
      using frontier_inv_cong[of s' s1 cfg a] fr End(7) by simp
    ultimately show ?thesis using fr by (simp add: run_inv_def)
  next
    case (Relaxed u x s1 es)
    note fr = relax_frame[OF Relaxed(5)]
    from k Relaxed have "keys_inv cfg s1" by (simp add: keys_inv_def)
    with Relaxed(5) have "keys_inv cfg s'" by (rule relax_keys_inv)
    moreover from Relaxed(5,11) have "frontier_inv cfg a s'" by (rule relax_frontier_inv)
    moreover from assms(2) False have "end_node cfg \<notin> visited s" by (simp add: run_inv_def)
    ultimately show ?thesis using fr Relaxed by (simp add: run_inv_def)
  qed
qed

lemma step_total:
  assumes "wf_config cfg" and "run_inv cfg a s"
  shows "\<exists>s'. step cfg a s = Inr s'"
proof (cases "\<not> is_running s \<or> is_finished s")
  case True
  then show ?thesis by (simp add: step_def)
next
  case active: False
  from assms(2) have k: "keys_inv cfg s" and f: "frontier_inv cfg a s" by (simp_all add: run_inv_def)
  from assms(1) have e: "end_node cfg \<in> set (nodes cfg)" by (simp add: wf_config_def)
  show ?thesis
  proof (cases "pick_next a s")
    case (Raised err)
    with pick_next_not_Raised[OF f k, of err] show ?thesis by simp
  next
    case (Exhausted s0)
    from pick_next_Exhausted[OF Exhausted] k e have "end_node cfg \<in> dom (dist s0)"
      by (simp add: keys_inv_def)
    from finish_total[OF this] Exhausted active show ?thesis by (simp add: step_def)
  next
    case (Chosen du u s0)
    let ?s1 = "s0\<lparr> current_node := Some u, visited := insert u (visited s0) \<rparr>"
    from pick_next_Chosen[OF Chosen] k have d1: "dom (dist ?s1) = set (nodes cfg)"
      by (simp add: keys_inv_def)
    from pick_next_Chosen_min[OF Chosen f k] have u: "u \<in> set (nodes cfg)" by simp
    have "\<exists>s'. settle cfg a du u s0 = Inr s'"
    proof (cases "u = end_node cfg")
      case True
      from finish_total[of cfg ?s1] d1 e True show ?thesis by (simp add: settle_def)
    next
      case False
      from u obtain es where es: "map_of (graph cfg) u = Some es"
        by (cases "map_of (graph cfg) u") (auto simp: nodes_def map_of_eq_None_iff)
      with assms(1) have "\<forall>e \<in> set es. fst e \<in> set (nodes cfg)"
        by (fastforce simp: wf_config_def)
      with d1 have "\<forall>e \<in> set es. fst e \<in> dom (dist ?s1)" by simp
      from relax_total[OF this] es False show ?thesis by (simp add: settle_def)
    qed
    with Chosen active show ?thesis by (simp add: step_def)
  qed
qed

lemma step_progress:
  assumes "step cfg a s = Inr s'" and "run_inv cfg a s" and "\<not> is_finished s"
    and "\<not> is_finished s'"
  shows "\<exists>u. u \<notin> visited s \<and> visited s' = insert u (visited s)"
  using assms(1-3)
proof (cases rule: step_active_cases)
  case (Exhausted s0)
  from finish_frame[OF Exhausted(1)] assms(4) show ?thesis by simp
next
  case (End x s1)
  from finish_frame[OF End(1)] assms(4) show ?thesis by simp
next
  case (Relaxed u x s1 es)
  from relax_frame[OF Relaxed(5)] Relaxed(2,8) show ?thesis by auto
qed

lemma steps_finished:
  assumes "is_finished s"
  shows "steps n cfg a s = Inr s"
  using assms by (induction n) (simp_all add: step_def)

lemma steps_invariant:
  assumes "steps n cfg a s = Inr s'" and "P s"
    and "\<And>t t'. P t \<Longrightarrow> step cfg a t = Inr t' \<Longrightarrow> P t'"
  shows "P s'"
  using assms(1,2)
proof (induction n arbitrary: s)
  case 0
  then show ?case by simp
next
  case (Suc n)
  from Suc.prems(1) obtain t where t: "step cfg a s = Inr t" and r: "steps n cfg a t = Inr s'"
    by (auto split: sum.splits)
  from Suc.IH[OF r assms(3)[OF Suc.prems(2) t]] show ?case .
qed

lemma steps_progress:
  assumes "wf_config cfg" and "run_inv cfg a s"
  shows "\<exists>s'. steps n cfg a s = Inr s' \<and> run_inv cfg a s'
           \<and> (is_finished s' \<or> card (visited s') = card (visited s) + n)"
  using assms(2)
proof (induction n arbitrary: s)
  case 0
  then show ?case by simp
next
  case (Suc n)
  from step_total[OF assms(1) Suc.prems] obtain t where t: "step cfg a s = Inr t" by blast
  have rt: "run_inv cfg a t" using t Suc.prems by (rule step_run_inv)
  show ?case
  proof (cases "is_finished t")
    case True
    with t rt steps_finished[OF True, of n cfg a] show ?thesis by simp
  next
    case False
    then have ns: "\<not> is_finished s" using t by (auto simp: step_def)
    from step_progress[OF t Suc.prems ns False] obtain u where
      u: "u \<notin> visited s" "visited t = insert u (visited s)" by blast
    from Suc.prems have "finite (visited s)"
      by (auto simp: run_inv_def keys_inv_def intro: finite_subset)
    with u have c: "card (visited t) = Suc (card (visited s))" by simp
    from Suc.IH[OF rt] obtain s' where "steps n cfg a t = Inr s'" "run_inv cfg a s'"
      "is_finished s' \<or> card (visited s') = card (visited t) + n" by blast
    with t c show ?thesis by auto
  qed
qed

lemma unfinished_card:
  assumes "wf_config cfg" and "run_inv cfg a s" and "\<not> is_finished s"
  shows "card (visited s) < length (nodes cfg)"
proof -
  from assms(2,3) have "visited s \<subseteq> set (nodes cfg) - {end_node cfg}"
    by (auto simp: run_inv_def keys_inv_def)
  then have "card (visited s) \<le> card (set (nodes cfg) - {end_node cfg})"
    by (intro card_mono) simp_all
  also from assms(1) have "\<dots> < card (set (nodes cfg))"
    by (intro psubset_card_mono) (auto simp: wf_config_def)
  also have "\<dots> \<le> length (nodes cfg)" by (rule card_length)
  finally show ?thesis .
qed

lemma steps_reach_finished:
  assumes "wf_config cfg"
  shows "\<exists>s. steps (length (nodes cfg)) cfg a (start cfg a now (reset cfg)) = Inr s
           \<and> is_finished s \<and> run_inv cfg a s"
proof -
  let ?s0 = "start cfg a now (reset cfg)"
  have v0: "visited ?s0 = {}" by (simp add: start_def reset_def)
  from steps_progress[OF assms run_inv_initial[OF assms, where a = a and now = now], where n = "length (nodes cfg)"]
  obtain s where s: "steps (length (nodes cfg)) cfg a ?s0 = Inr s" "run_inv cfg a s"
    "is_finished s \<or> card (visited s) = card (visited ?s0) + length (nodes cfg)" by blast
  have "is_finished s"
  proof (rule ccontr)
    assume n: "\<not> is_finished s"
    from unfinished_card[OF assms s(2) n] s(3) n v0 show False by simp
  qed
  with s show ?thesis by blast
qed

lemma steps_until_finished:
  assumes "steps n cfg a s = Inr s'" and "is_finished s'"
  shows "step_until_finished cfg a s = Some (Inr s')"
  using assms
proof (induction n arbitrary: s)
  case 0
  then show ?case by (simp add: step_until_finished.simps)
next
  case (Suc n)
  show ?case
  proof (cases "is_finished s")
    case True
    from steps_finished[OF True, of "Suc n" cfg a] Suc.prems(1) have "s' = s" by simp
    with True show ?thesis by (simp add: step_until_finished.simps)
  next
    case False
    from Suc.prems(1) obtain t where t: "step cfg a s = Inr t" and r: "steps n cfg a t = Inr s'"
      by (auto split: sum.splits)
    from Suc.IH[OF r Suc.prems(2)] False t show ?thesis
      by (subst step_until_finished.simps) simp
  qed
qed

lemma run_invariant:
  assumes "wf_config cfg" and "P (start cfg a now (reset cfg))"
    and "\<And>t t'. P t \<Longrightarrow> step cfg a t = Inr t' \<Longrightarrow> P t'"
  shows "\<exists>s. run cfg a now = Some (Inr s) \<and> is_finished s \<and> P s"
proof -
  from steps_reach_finished[OF assms(1), of a now] obtain s where
    s: "steps (length (nodes cfg)) cfg a (start cfg a now (reset cfg)) = Inr s" "is_finished s"
    by blast
  from steps_invariant[OF s(1), of P, OF assms(2,3)] have "P s" by simp
  moreover from steps_until_finished[OF s] have "run cfg a now = Some (Inr s)" by (simp add: run_def)
  ultimately show ?thesis using s(2) by blast
qed




section \<open>Finite distances are costs of walks\<close>

lemma is_walk_append:
  assumes "is_walk cfg u es v" and "is_walk cfg v fs w"
  shows "is_walk cfg u (es @ fs) w"
  using assms by (induction es arbitrary: u) auto

lemma cost_append: "cost (es @ fs) = cost es + cost fs"
  by (simp add: cost_def)

lemma sound_inv_initial: "sound_inv cfg (start cfg a now (reset cfg))"
proof -
  let ?s = "start cfg a now (reset cfg)"
  have w: "is_walk cfg (start_node cfg) [] (start_node cfg) \<and> cost [] = 0" by (simp add: cost_def)
  have "\<forall>v x. dist ?s v = Some (Fin x) \<longrightarrow> (\<exists>es. is_walk cfg (start_node cfg) es v \<and> cost es = x)"
  proof (intro allI impI)
    fix v x assume "dist ?s v = Some (Fin x)"
    then have "v = start_node cfg \<and> x = 0"
      by (auto simp: start_def reset_def split: if_splits)
    with w show "\<exists>es. is_walk cfg (start_node cfg) es v \<and> cost es = x" by blast
  qed
  moreover have "visited ?s = {}" "\<not> is_finished ?s" by (simp_all add: start_def reset_def)
  ultimately show ?thesis by (simp add: sound_inv_def)
qed

lemma relax_walks:
  assumes "relax a u (Fin x) es s = Inr s'"
    and "\<forall>v y. dist s v = Some (Fin y) \<longrightarrow> (\<exists>p. is_walk cfg (start_node cfg) p v \<and> cost p = y)"
    and "is_walk cfg (start_node cfg) pu u" and "cost pu = x" and "set es \<subseteq> set (adj cfg u)"
  shows "\<forall>v y. dist s' v = Some (Fin y) \<longrightarrow> (\<exists>p. is_walk cfg (start_node cfg) p v \<and> cost p = y)"
proof (rule relax_invariant[OF assms(1), where
        P = "\<lambda>t. \<forall>v y. dist t v = Some (Fin y) \<longrightarrow> (\<exists>p. is_walk cfg (start_node cfg) p v \<and> cost p = y)"])
  show "\<forall>v y. dist s v = Some (Fin y) \<longrightarrow> (\<exists>p. is_walk cfg (start_node cfg) p v \<and> cost p = y)"
    by fact
next
  fix t v w dn
  assume t: "\<forall>v y. dist t v = Some (Fin y) \<longrightarrow> (\<exists>p. is_walk cfg (start_node cfg) p v \<and> cost p = y)"
    and e: "(v, w) \<in> set es"
  from e assms(5) have "is_walk cfg u [(v, w)] v" by auto
  with assms(3) have "is_walk cfg (start_node cfg) (pu @ [(v, w)]) v" by (rule is_walk_append)
  moreover have "cost (pu @ [(v, w)]) = x + w" using assms(4) by (simp add: cost_def)
  ultimately have new: "\<exists>p. is_walk cfg (start_node cfg) p v \<and> cost p = x + w" by blast
  show "\<forall>v' y. dist (t\<lparr> dist := (dist t)(v \<mapsto> dadd (Fin x) w), prev := (prev t)(v \<mapsto> Some u),
           pq := (if a = Heap then heappush (pq t) (dadd (Fin x) w, v) else pq t) \<rparr>) v' = Some (Fin y)
        \<longrightarrow> (\<exists>p. is_walk cfg (start_node cfg) p v' \<and> cost p = y)"
    using t new by auto
qed

lemma step_sound_inv:
  assumes "step cfg a s = Inr s'" and "run_inv cfg a s" and "sound_inv cfg s"
  shows "sound_inv cfg s'"
proof (cases "is_finished s")
  case True
  with assms(1) have "s' = s" by (simp add: step_def)
  with assms(3) show ?thesis by simp
next
  case False
  from assms(3) have w: "\<forall>v x. dist s v = Some (Fin x) \<longrightarrow> (\<exists>es. is_walk cfg (start_node cfg) es v \<and> cost es = x)"
    and f: "\<forall>v \<in> visited s. \<exists>x. dist s v = Some (Fin x)"
    by (simp_all add: sound_inv_def)
  from assms(1,2) False show ?thesis
  proof (cases rule: step_active_cases)
    case (Exhausted s0)
    from finish_eq[OF Exhausted(1)] obtain d where d: "dist s0 (end_node cfg) = Some d"
      "status_label s' = (if d < PosInf then ''Path found!'' else ''Target is unreachable.'')"
      by auto
    from finish_frame[OF Exhausted(1)] Exhausted(2,4) have "dist s' = dist s" "visited s' = visited s"
      by simp_all
    with w f d Exhausted(2) show ?thesis by (simp add: sound_inv_def)
  next
    case (End x s1)
    from finish_eq[OF End(1)] obtain d where d: "dist s1 (end_node cfg) = Some d"
      "status_label s' = (if d < PosInf then ''Path found!'' else ''Target is unreachable.'')"
      by auto
    from finish_frame[OF End(1)] End(2,4)
    have "dist s' = dist s" "visited s' = insert (end_node cfg) (visited s)" by simp_all
    moreover from d(1) End(2,5) have "d = Fin x" by simp
    ultimately show ?thesis using w f d End(2,5) by (simp add: sound_inv_def)
  next
    case (Relaxed u x s1 es)
    from w Relaxed(9) obtain pu where pu: "is_walk cfg (start_node cfg) pu u" "cost pu = x" by blast
    from Relaxed(4) have sub: "set es \<subseteq> set (adj cfg u)" by (simp add: adj_def)
    from w Relaxed(6)
    have w1: "\<forall>v y. dist s1 v = Some (Fin y) \<longrightarrow> (\<exists>p. is_walk cfg (start_node cfg) p v \<and> cost p = y)"
      by simp
    note w' = relax_walks[OF Relaxed(5) w1 pu sub]
    note fr = relax_frame[OF Relaxed(5)]
    have "\<forall>v \<in> visited s'. \<exists>x. dist s' v = Some (Fin x)"
    proof
      fix v assume "v \<in> visited s'"
      with fr Relaxed(8) have v1: "v \<in> visited s1" and "v = u \<or> v \<in> visited s" by auto
      with f Relaxed(9) obtain y where "dist s v = Some (Fin y)" by auto
      with relax_visited_fixed[OF Relaxed(5) v1] Relaxed(6) show "\<exists>x. dist s' v = Some (Fin x)"
        by simp
    qed
    with w' fr Relaxed(13) show ?thesis by (simp add: sound_inv_def)
  qed
qed






section \<open>Visited nodes carry shortest distances\<close>

lemma walk_crossing:
  assumes "is_walk cfg a es b" and "a \<in> S" and "b \<notin> S"
  shows "\<exists>es1 p e es2. es = es1 @ e # es2 \<and> is_walk cfg a es1 p \<and> p \<in> S
           \<and> e \<in> set (adj cfg p) \<and> fst e \<notin> S \<and> is_walk cfg (fst e) es2 b"
  using assms
proof (induction es arbitrary: a)
  case Nil
  then show ?case by simp
next
  case (Cons e es)
  from Cons.prems(1) have e: "e \<in> set (adj cfg a)" and r: "is_walk cfg (fst e) es b" by simp_all
  show ?case
  proof (cases "fst e \<in> S")
    case False
    have "e # es = [] @ e # es \<and> is_walk cfg a [] a" by simp
    with Cons.prems(2) e False r show ?thesis by blast
  next
    case True
    from Cons.IH[OF r True Cons.prems(3)] obtain es1 p e' es2 where
      h: "es = es1 @ e' # es2" "is_walk cfg (fst e) es1 p" "p \<in> S" "e' \<in> set (adj cfg p)"
         "fst e' \<notin> S" "is_walk cfg (fst e') es2 b" by blast
    from h(1) have "e # es = (e # es1) @ e' # es2" by simp
    moreover from e h(2) have "is_walk cfg a (e # es1) p" by simp
    ultimately show ?thesis using h(3-6) by blast
  qed
qed

lemma walk_nonneg:
  assumes "nonneg cfg" and "is_walk cfg a es b"
  shows "0 \<le> cost es"
  using assms(2)
proof (induction es arbitrary: a)
  case Nil
  show ?case by (simp add: cost_def)
next
  case (Cons e es)
  from Cons.prems assms(1) have "0 \<le> snd e" by (auto simp: nonneg_def)
  moreover from Cons.IH[of "fst e"] Cons.prems have "0 \<le> cost es" by simp
  ultimately show ?case by (simp add: cost_def)
qed

lemma picked_is_optimal:
  assumes nn: "nonneg cfg" and sf: "start_fixed cfg s" and so: "sound_inv cfg s"
    and op: "opt_inv cfg s" and ev: "end_node cfg \<notin> visited s"
    and u: "u \<notin> visited s" "dist s u = Some (Fin x)"
    and least: "\<forall>v dv. v \<notin> visited s \<longrightarrow> dist s v = Some dv \<longrightarrow> Fin x \<le> dv"
    and w: "is_walk cfg (start_node cfg) es u"
  shows "x \<le> cost es"
proof (cases "start_node cfg \<in> visited s")
  case False
  with sf u(2) have "u = start_node cfg" by (auto simp: start_fixed_def)
  with sf u(2) have "x = 0" by (simp add: start_fixed_def)
  with walk_nonneg[OF nn w] show ?thesis by simp
next
  case True
  from walk_crossing[OF w True u(1)] obtain es1 p e es2 where
    h: "es = es1 @ e # es2" "is_walk cfg (start_node cfg) es1 p" "p \<in> visited s"
       "e \<in> set (adj cfg p)" "fst e \<notin> visited s" "is_walk cfg (fst e) es2 u" by blast
  from so h(3) obtain xp where xp: "dist s p = Some (Fin xp)" by (auto simp: sound_inv_def)
  from op h(3) xp h(2) have 1: "xp \<le> cost es1" by (auto simp: opt_inv_def)
  from op ev h(3,4,5) xp obtain dv where dv: "dist s (fst e) = Some dv" "dv \<le> Fin (xp + snd e)"
    unfolding opt_inv_def by blast
  from least h(5) dv(1) have "Fin x \<le> dv" by simp
  with dv(2) have 2: "x \<le> xp + snd e" by (cases dv) simp_all
  from walk_nonneg[OF nn h(6)] have 3: "0 \<le> cost es2" .
  have "cost es = cost es1 + snd e + cost es2" by (simp add: h(1) cost_def)
  with 1 2 3 show ?thesis by simp
qed

lemma relax_post:
  assumes "relax a u du es s = Inr s'"
  shows "\<forall>e \<in> set es. fst e \<notin> visited s \<longrightarrow> (\<exists>dv. dist s' (fst e) = Some dv \<and> dv \<le> dadd du (snd e))"
  using assms
proof (induction es arbitrary: s)
  case Nil
  show ?case by simp
next
  case (Cons e es)
  obtain v w where e: "e = (v, w)" by (cases e)
  show ?case
  proof (cases "v \<in> visited s")
    case True
    with Cons.prems e have "relax a u du es s = Inr s'" by simp
    from Cons.IH[OF this] True e show ?thesis by simp
  next
    case False
    with Cons.prems e obtain dn where dn: "dist s v = Some dn" by (auto split: option.splits)
    show ?thesis
    proof (cases "dadd du w < dn")
      case True
      let ?t = "s\<lparr> dist := (dist s)(v \<mapsto> dadd du w), prev := (prev s)(v \<mapsto> Some u),
                   pq := (if a = Heap then heappush (pq s) (dadd du w, v) else pq s) \<rparr>"
      from Cons.prems e False dn True have r: "relax a u du es ?t = Inr s'" by simp
      have "dist ?t v = Some (dadd du w)" by simp
      from relax_dist_mono[OF r this] have hd: "\<exists>dv. dist s' v = Some dv \<and> dv \<le> dadd du w" .
      from Cons.IH[OF r] have "\<forall>e \<in> set es. fst e \<notin> visited s \<longrightarrow>
          (\<exists>dv. dist s' (fst e) = Some dv \<and> dv \<le> dadd du (snd e))" by simp
      with hd e show ?thesis by simp
    next
      case nlt: False
      with Cons.prems e False dn have r: "relax a u du es s = Inr s'" by simp
      from relax_dist_mono[OF r dn] nlt have "\<exists>dv. dist s' v = Some dv \<and> dv \<le> dadd du w"
        by (meson leI order_trans)
      with Cons.IH[OF r] e show ?thesis by simp
    qed
  qed
qed

lemma step_opt_inv:
  assumes st: "step cfg a s = Inr s'" and ri: "run_inv cfg a s" and so: "sound_inv cfg s"
    and sf: "start_fixed cfg s" and op: "opt_inv cfg s" and nn: "nonneg cfg"
  shows "opt_inv cfg s'"
proof (cases "is_finished s")
  case True
  with st have "s' = s" by (simp add: step_def)
  with op show ?thesis by simp
next
  case False
  with ri have ev: "end_node cfg \<notin> visited s" by (simp add: run_inv_def)
  from op have C: "\<forall>v \<in> visited s. \<forall>x es. dist s v = Some (Fin x) \<longrightarrow>
      is_walk cfg (start_node cfg) es v \<longrightarrow> x \<le> cost es"
    and A: "\<forall>u \<in> visited s. \<forall>x. \<forall>e \<in> set (adj cfg u). dist s u = Some (Fin x) \<longrightarrow> fst e \<notin> visited s \<longrightarrow>
           (\<exists>dv. dist s (fst e) = Some dv \<and> dv \<le> Fin (x + snd e))"
    using ev by (simp_all add: opt_inv_def)
  from st ri False show ?thesis
  proof (cases rule: step_active_cases)
    case (Exhausted s0)
    from finish_frame[OF Exhausted(1)] Exhausted(2,4)
    have eq: "dist s' = dist s" "visited s' = visited s" by simp_all
    show ?thesis
      unfolding opt_inv_def eq using C A Exhausted(5) by blast
  next
    case (End x s1)
    from finish_frame[OF End(1)] End(2,4)
    have eq: "dist s' = dist s" "visited s' = insert (end_node cfg) (visited s)" by simp_all
    have "x' \<le> cost es" if "dist s (end_node cfg) = Some (Fin x')"
      and "is_walk cfg (start_node cfg) es (end_node cfg)" for x' es
      using picked_is_optimal[OF nn sf so op ev ev End(5,6) that(2)] that(1) End(5) by simp
    with C show ?thesis
      unfolding opt_inv_def eq by auto
  next
    case (Relaxed u x s1 es)
    note fr = relax_frame[OF Relaxed(5)]
    have vis: "visited s' = insert u (visited s)" using fr Relaxed(8) by simp
    have fixed: "dist s' v = dist s v" if "v \<in> insert u (visited s)" for v
      using relax_visited_fixed[OF Relaxed(5), of v] that Relaxed(6,8) by simp
    have es: "adj cfg u = es" using Relaxed(4) by (simp add: adj_def)
    have C': "\<forall>v \<in> visited s'. \<forall>x es. dist s' v = Some (Fin x) \<longrightarrow>
        is_walk cfg (start_node cfg) es v \<longrightarrow> x \<le> cost es"
    proof (intro ballI allI impI)
      fix v x' p assume v: "v \<in> visited s'" and d: "dist s' v = Some (Fin x')"
        and w: "is_walk cfg (start_node cfg) p v"
      from v vis have v': "v \<in> insert u (visited s)" by simp
      with d fixed have d0: "dist s v = Some (Fin x')" by simp
      show "x' \<le> cost p"
      proof (cases "v = u")
        case True
        with d0 Relaxed(9) have "x' = x" by simp
        with picked_is_optimal[OF nn sf so op ev Relaxed(2,9,10)] w True show ?thesis by simp
      next
        case False
        with v' C d0 w show ?thesis by blast
      qed
    qed
    have A': "\<forall>p \<in> visited s'. \<forall>x. \<forall>e \<in> set (adj cfg p). dist s' p = Some (Fin x) \<longrightarrow>
        fst e \<notin> visited s' \<longrightarrow> (\<exists>dv. dist s' (fst e) = Some dv \<and> dv \<le> Fin (x + snd e))"
    proof (intro ballI allI impI)
      fix p xp e assume p: "p \<in> visited s'" and e: "e \<in> set (adj cfg p)"
        and d: "dist s' p = Some (Fin xp)" and f: "fst e \<notin> visited s'"
      from p vis have p': "p \<in> insert u (visited s)" by simp
      with d fixed have d0: "dist s p = Some (Fin xp)" by simp
      from f vis Relaxed(8) have f1: "fst e \<notin> visited s1" and f0: "fst e \<notin> visited s" by simp_all
      show "\<exists>dv. dist s' (fst e) = Some dv \<and> dv \<le> Fin (xp + snd e)"
      proof (cases "p = u")
        case True
        with d0 Relaxed(9) have "xp = x" by simp
        with relax_post[OF Relaxed(5)] e es True f1 show ?thesis by auto
      next
        case False
        with p' have "p \<in> visited s" by simp
        with A e d0 f0 obtain dv where dv: "dist s (fst e) = Some dv" "dv \<le> Fin (xp + snd e)"
          by blast
        from relax_dist_mono[OF Relaxed(5), of "fst e" dv] dv(1) Relaxed(6)
        obtain dv' where "dist s' (fst e) = Some dv'" "dv' \<le> dv" by auto
        with dv(2) show ?thesis by auto
      qed
    qed
    from fr Relaxed(13) have "\<not> is_finished s'" by simp
    with C' A' show ?thesis by (simp add: opt_inv_def)
  qed
qed

lemma opt_inv_initial: "opt_inv cfg (start cfg a now (reset cfg))"
  by (simp add: opt_inv_def start_def reset_def)

lemma start_fixed_initial: "start_fixed cfg (start cfg a now (reset cfg))"
  by (intro start_start_fixed reset_start_fixed)

lemma shortest_unique:
  assumes "shortest cfg v d" and "shortest cfg v d'"
  shows "d = d'"
  using assms by (cases d; cases d') (auto simp: shortest_def intro: antisym)

lemma visited_shortest:
  assumes "sound_inv cfg s" and "opt_inv cfg s" and "v \<in> visited s"
  shows "\<exists>x. dist s v = Some (Fin x) \<and> shortest cfg v (Fin x)"
proof -
  from assms(1,3) obtain x where x: "dist s v = Some (Fin x)" by (auto simp: sound_inv_def)
  with assms(1) have "\<exists>es. is_walk cfg (start_node cfg) es v \<and> cost es = x"
    by (simp add: sound_inv_def)
  moreover from assms(2,3) x have "\<forall>es. is_walk cfg (start_node cfg) es v \<longrightarrow> x \<le> cost es"
    by (auto simp: opt_inv_def)
  ultimately show ?thesis using x by (simp add: shortest_def)
qed

lemma exhausted_shortest:
  assumes ri: "run_inv cfg a s" and so: "sound_inv cfg s" and sf: "start_fixed cfg s"
    and op: "opt_inv cfg s" and fin: "is_finished s" and ev: "end_node cfg \<notin> visited s"
    and v: "v \<in> set (nodes cfg)"
  shows "\<exists>d. dist s v = Some d \<and> shortest cfg v d"
proof (cases "v \<in> visited s")
  case True
  from visited_shortest[OF so op True] show ?thesis by blast
next
  case False
  from op fin ev have X: "\<forall>v x. v \<notin> visited s \<longrightarrow> dist s v \<noteq> Some (Fin x)"
    by (simp add: opt_inv_def)
  from ri v have "v \<in> dom (dist s)" by (simp add: run_inv_def keys_inv_def)
  then obtain d where d: "dist s v = Some d" by blast
  with X False have inf: "d = PosInf" by (cases d) auto
  have sv: "start_node cfg \<in> visited s"
  proof (rule ccontr)
    assume "start_node cfg \<notin> visited s"
    with X sf show False by (auto simp: start_fixed_def)
  qed
  have "\<not> is_walk cfg (start_node cfg) es v" for es
  proof
    assume "is_walk cfg (start_node cfg) es v"
    from walk_crossing[OF this sv False] obtain p e where
      h: "p \<in> visited s" "e \<in> set (adj cfg p)" "fst e \<notin> visited s" by blast
    from so h(1) obtain xp where xp: "dist s p = Some (Fin xp)" by (auto simp: sound_inv_def)
    from op ev h xp obtain dv where "dist s (fst e) = Some dv" "dv \<le> Fin (xp + snd e)"
      unfolding opt_inv_def by blast
    then obtain y where "dist s (fst e) = Some (Fin y)" using le_Fin_cases by blast
    with X h(3) show False by blast
  qed
  with d inf show ?thesis by (simp add: shortest_def)
qed

section \<open>The predecessor table and the highlighted path\<close>

lemma chain_walk_prev:
  assumes "chain pv v ps"
  shows "walk_prev pv (Some v) acc = Some (Inr (acc @ ps))"
  using assms
proof (induction arbitrary: acc rule: chain.induct)
  case (chain_end v)
  then show ?case by (simp add: walk_prev.simps)
next
  case (chain_step v p ps)
  from chain_step.IH[of "acc @ [v]"] chain_step.hyps(1,2) show ?case
    by (subst walk_prev.simps) simp
qed

lemma chain_hd:
  assumes "chain pv v ps"
  shows "\<exists>qs. ps = v # qs"
  using assms by (cases rule: chain.cases) auto

lemma chain_cong:
  assumes "chain pv v ps" and "\<forall>x \<in> set ps. pv' x = pv x"
  shows "chain pv' v ps"
  using assms
proof (induction rule: chain.induct)
  case (chain_end v)
  then show ?case by (auto intro: chain.chain_end)
next
  case (chain_step v p ps)
  then show ?case by (auto intro: chain.chain_step)
qed

lemma edge_weight_min:
  assumes "(v, w) \<in> set (adj cfg u)" and "\<forall>w'. (v, w') \<in> set (adj cfg u) \<longrightarrow> w \<le> w'"
  shows "edge_weight cfg u v = Some w"
proof -
  let ?ws = "map snd (filter (\<lambda>e. fst e = v) (adj cfg u))"
  from assms(1) have in_ws: "w \<in> set ?ws" by force
  have low: "\<forall>y \<in> set ?ws. w \<le> y" using assms(2) by auto
  from in_ws low have "Min (set ?ws) = w" by (intro Min_eqI) auto
  moreover from in_ws have "?ws \<noteq> []" by (metis empty_iff empty_set)
  ultimately show ?thesis by (simp add: edge_weight_def Let_def)
qed

lemma path_cost_snoc:
  assumes "path_cost cfg (xs @ [p]) = Some c" and "edge_weight cfg p v = Some w"
  shows "path_cost cfg (xs @ [p, v]) = Some (c + w)"
  using assms(1)
proof (induction xs arbitrary: c)
  case Nil
  with assms(2) show ?case by simp
next
  case (Cons x xs)
  show ?case
  proof (cases xs)
    case Nil
    with Cons.prems assms(2) show ?thesis by (auto split: option.splits)
  next
    case (Cons y ys)
    with Cons.prems obtain wxy c' where h: "edge_weight cfg x y = Some wxy"
      "path_cost cfg (y # ys @ [p]) = Some c'" "c = wxy + c'"
      by (auto split: option.splits)
    from Cons.IH[of c'] h(2) Cons have "path_cost cfg (y # ys @ [p, v]) = Some (c' + w)" by simp
    with h(1,3) Cons show ?thesis by simp
  qed
qed

lemma tree_inv_initial:
  assumes "start_node cfg \<in> set (nodes cfg)"
  shows "tree_inv cfg (start cfg a now (reset cfg))"
  using assms by (auto simp: tree_inv_def start_def reset_def split: if_splits)

lemma tree_inv_grow:
  assumes "tree_inv cfg s" and "dist s' = dist s" and "prev s' = prev s"
    and "visited s \<subseteq> visited s'"
  shows "tree_inv cfg s'"
  using assms unfolding tree_inv_def by (simp add: subset_iff)

lemma tree_inv_relax:
  assumes r: "relax a u (Fin x) es s = Inr s'" and t: "tree_inv cfg s"
    and u: "u \<in> visited s" "dist s u = Some (Fin x)" and sv: "start_node cfg \<in> visited s"
    and sub: "set es \<subseteq> set (adj cfg u)"
  shows "tree_inv cfg s'"
proof -
  let ?P = "\<lambda>t. tree_inv cfg t \<and> dist t u = Some (Fin x)"
  have "?P s'"
  proof (rule relax_invariant[OF r, where P = ?P])
    show "?P s" using t u(2) by simp
  next
    fix t v w dn
    assume P: "?P t" and e: "(v, w) \<in> set es" and vis: "visited t = visited s"
      and v: "v \<notin> visited s"
    let ?t = "t\<lparr> dist := (dist t)(v \<mapsto> dadd (Fin x) w), prev := (prev t)(v \<mapsto> Some u),
                 pq := (if a = Heap then heappush (pq t) (dadd (Fin x) w, v) else pq t) \<rparr>"
    from v u(1) sv have ne: "v \<noteq> u" "v \<noteq> start_node cfg" by auto
    from P have T1: "prev t (start_node cfg) = Some None"
      and T2: "\<forall>v p. prev t v = Some (Some p) \<longrightarrow> p \<in> visited t \<and>
          (\<exists>x w. dist t p = Some (Fin x) \<and> (v, w) \<in> set (adj cfg p) \<and> dist t v = Some (Fin (x + w)))"
      and T3: "\<forall>v x. dist t v = Some (Fin x) \<longrightarrow> v \<noteq> start_node cfg \<longrightarrow> (\<exists>p. prev t v = Some (Some p))"
      and du: "dist t u = Some (Fin x)"
      by (simp_all add: tree_inv_def)
    have 1: "prev ?t (start_node cfg) = Some None" using T1 ne(2) by simp
    have 2: "\<forall>v' p. prev ?t v' = Some (Some p) \<longrightarrow> p \<in> visited ?t \<and>
          (\<exists>y w'. dist ?t p = Some (Fin y) \<and> (v', w') \<in> set (adj cfg p) \<and> dist ?t v' = Some (Fin (y + w')))"
    proof (intro allI impI)
      fix v' p assume pv: "prev ?t v' = Some (Some p)"
      show "p \<in> visited ?t \<and>
          (\<exists>y w'. dist ?t p = Some (Fin y) \<and> (v', w') \<in> set (adj cfg p) \<and> dist ?t v' = Some (Fin (y + w')))"
      proof (cases "v' = v")
        case True
        with pv have "p = u" by simp
        with True u(1) vis du ne(1) e sub show ?thesis by auto
      next
        case False
        with pv have "prev t v' = Some (Some p)" by simp
        with T2 obtain y w' where h: "p \<in> visited t" "dist t p = Some (Fin y)"
          "(v', w') \<in> set (adj cfg p)" "dist t v' = Some (Fin (y + w'))" by blast
        from h(1) vis v have "p \<noteq> v" by auto
        with h False show ?thesis by auto
      qed
    qed
    have 3: "\<forall>v' y. dist ?t v' = Some (Fin y) \<longrightarrow> v' \<noteq> start_node cfg \<longrightarrow> (\<exists>p. prev ?t v' = Some (Some p))"
      using T3 by auto
    from 1 2 3 du ne(1) show "?P ?t" by (simp add: tree_inv_def)
  qed
  then show ?thesis by simp
qed

lemma path_inv_initial: "path_inv cfg (start cfg a now (reset cfg))"
  by (simp add: path_inv_def start_def reset_def)

lemma path_inv_add:
  assumes pi: "path_inv cfg s" and ti: "tree_inv cfg s" and so: "sound_inv cfg s"
    and sf: "start_fixed cfg s"
    and u: "u \<notin> visited s" "dist s u = Some (Fin x)" "u \<noteq> []"
    and opt: "\<forall>es. is_walk cfg (start_node cfg) es u \<longrightarrow> x \<le> cost es"
    and eq: "dist s1 = dist s" "prev s1 = prev s" "visited s1 = insert u (visited s)"
  shows "path_inv cfg s1"
  unfolding path_inv_def
proof
  fix v assume "v \<in> visited s1"
  with eq(3) have v: "v = u \<or> v \<in> visited s" by simp
  show "\<exists>ps x. chain (prev s1) v ps \<and> set ps \<subseteq> visited s1 \<and> distinct ps \<and>
         last ps = start_node cfg \<and> dist s1 v = Some (Fin x) \<and> path_cost cfg (rev ps) = Some x"
  proof (cases "v \<in> visited s")
    case True
    with pi obtain ps y where "chain (prev s) v ps" "set ps \<subseteq> visited s" "distinct ps"
      "last ps = start_node cfg" "dist s v = Some (Fin y)" "path_cost cfg (rev ps) = Some y"
      unfolding path_inv_def by blast
    with eq show ?thesis by auto
  next
    case False
    with v have vu: "v = u" by simp
    show ?thesis
    proof (cases "u = start_node cfg")
      case True
      with ti have "prev s u = Some None" by (simp add: tree_inv_def)
      with u(3) have "chain (prev s) u [u]" by (rule chain_end)
      moreover from sf True u(2) have "x = 0" by (simp add: start_fixed_def)
      ultimately show ?thesis using vu True eq u(2) by auto
    next
      case ns: False
      with ti u(2) obtain p where p: "prev s u = Some (Some p)" unfolding tree_inv_def by blast
      with ti obtain xp w where h: "p \<in> visited s" "dist s p = Some (Fin xp)"
        "(u, w) \<in> set (adj cfg p)" "dist s u = Some (Fin (xp + w))"
        unfolding tree_inv_def by blast
      from h(4) u(2) have x: "x = xp + w" by simp
      from pi h(1) obtain ps y where c: "chain (prev s) p ps" "set ps \<subseteq> visited s" "distinct ps"
        "last ps = start_node cfg" "dist s p = Some (Fin y)" "path_cost cfg (rev ps) = Some y"
        unfolding path_inv_def by blast
      from c(5) h(2) have y: "y = xp" by simp
      from chain_hd[OF c(1)] obtain qs where qs: "ps = p # qs" by blast
      from so h(2) obtain wp where wp: "is_walk cfg (start_node cfg) wp p" "cost wp = xp"
        unfolding sound_inv_def by blast
      have "\<forall>w'. (u, w') \<in> set (adj cfg p) \<longrightarrow> w \<le> w'"
      proof (intro allI impI)
        fix w' assume "(u, w') \<in> set (adj cfg p)"
        then have "is_walk cfg p [(u, w')] u" by simp
        with wp(1) have "is_walk cfg (start_node cfg) (wp @ [(u, w')]) u" by (rule is_walk_append)
        with opt have "x \<le> cost (wp @ [(u, w')])" by blast
        with wp(2) x show "w \<le> w'" by (simp add: cost_def)
      qed
      with h(3) have ew: "edge_weight cfg p u = Some w" by (rule edge_weight_min)
      from c(6) qs y have "path_cost cfg (rev qs @ [p]) = Some xp" by simp
      from path_cost_snoc[OF this ew] qs x have pc: "path_cost cfg (rev (u # ps)) = Some x" by simp
      from u(3) p c(1) have ch: "chain (prev s) u (u # ps)" by (rule chain_step)
      from c(2) u(1) have "u \<notin> set ps" by auto
      with c(3) have "distinct (u # ps)" by simp
      moreover from qs c(4) have "last (u # ps) = start_node cfg" by simp
      moreover from c(2) eq(3) have "set (u # ps) \<subseteq> visited s1" by auto
      ultimately show ?thesis unfolding vu eq(1,2) using ch pc u(2) by blast
    qed
  qed
qed

lemma path_inv_fixed:
  assumes pi: "path_inv cfg s" and vis: "visited s' = visited s"
    and fixed: "\<forall>v \<in> visited s. dist s' v = dist s v \<and> prev s' v = prev s v"
  shows "path_inv cfg s'"
  unfolding path_inv_def
proof
  fix v assume "v \<in> visited s'"
  with vis have v: "v \<in> visited s" by simp
  with pi obtain ps y where c: "chain (prev s) v ps" "set ps \<subseteq> visited s" "distinct ps"
    "last ps = start_node cfg" "dist s v = Some (Fin y)" "path_cost cfg (rev ps) = Some y"
    unfolding path_inv_def by blast
  from c(2) fixed have "\<forall>x \<in> set ps. prev s' x = prev s x" by auto
  with c(1) have "chain (prev s') v ps" by (rule chain_cong)
  with c v vis fixed show "\<exists>ps x. chain (prev s') v ps \<and> set ps \<subseteq> visited s' \<and> distinct ps \<and>
         last ps = start_node cfg \<and> dist s' v = Some (Fin x) \<and> path_cost cfg (rev ps) = Some x"
    by auto
qed

lemma picked_start_visited:
  assumes "start_fixed cfg s" and "dist s u = Some (Fin x)"
  shows "start_node cfg \<in> insert u (visited s)"
  using assms by (auto simp: start_fixed_def)

lemma step_tree_path:
  assumes st: "step cfg a s = Inr s'" and ri: "run_inv cfg a s" and so: "sound_inv cfg s"
    and sf: "start_fixed cfg s" and op: "opt_inv cfg s" and ti: "tree_inv cfg s"
    and pi: "path_inv cfg s" and nn: "nonneg cfg" and ne: "[] \<notin> set (nodes cfg)"
  shows "tree_inv cfg s' \<and> path_inv cfg s'"
proof (cases "is_finished s")
  case True
  with st have "s' = s" by (simp add: step_def)
  with ti pi show ?thesis by simp
next
  case False
  with ri have ev: "end_node cfg \<notin> visited s" by (simp add: run_inv_def)
  from ri have k: "dom (dist s) = set (nodes cfg)" by (simp add: run_inv_def keys_inv_def)
  from st ri False show ?thesis
  proof (cases rule: step_active_cases)
    case (Exhausted s0)
    from finish_frame[OF Exhausted(1)] Exhausted(2,3,4)
    have eq: "dist s' = dist s" "prev s' = prev s" "visited s' = visited s" by simp_all
    from tree_inv_grow[OF ti eq(1,2)] eq(3) have "tree_inv cfg s'" by simp
    moreover from path_inv_fixed[OF pi eq(3)] eq have "path_inv cfg s'" by simp
    ultimately show ?thesis by simp
  next
    case (End x s1)
    from finish_frame[OF End(1)] End(2,3,4)
    have eq: "dist s' = dist s" "prev s' = prev s" "visited s' = insert (end_node cfg) (visited s)"
      by simp_all
    from tree_inv_grow[OF ti eq(1,2)] eq(3) have "tree_inv cfg s'" by auto
    moreover have "end_node cfg \<noteq> []" using End(5) k ne by auto
    then have "path_inv cfg s'"
      using picked_is_optimal[OF nn sf so op ev ev End(5,6)]
      by (intro path_inv_add[OF pi ti so sf ev End(5) _ _ eq]) auto
    ultimately show ?thesis by simp
  next
    case (Relaxed u x s1 es)
    have une: "u \<noteq> []" using Relaxed(3) ne by auto
    have p1: "path_inv cfg s1"
      using picked_is_optimal[OF nn sf so op ev Relaxed(2,9,10)]
      by (intro path_inv_add[OF pi ti so sf Relaxed(2,9) une _ Relaxed(6,7,8)]) auto
    from tree_inv_grow[OF ti Relaxed(6,7)] Relaxed(8) have t1: "tree_inv cfg s1" by auto
    from picked_start_visited[OF sf Relaxed(9)] Relaxed(8) have sv: "start_node cfg \<in> visited s1"
      by simp
    from Relaxed(4) have sub: "set es \<subseteq> set (adj cfg u)" by (simp add: adj_def)
    have "tree_inv cfg s'"
      using Relaxed(6,8,9) by (intro tree_inv_relax[OF Relaxed(5) t1 _ _ sv sub]) simp_all
    moreover have "path_inv cfg s'"
      using relax_frame[OF Relaxed(5)] relax_visited_fixed[OF Relaxed(5)]
      by (intro path_inv_fixed[OF p1]) simp_all
    ultimately show ?thesis by simp
  qed
qed

lemma step_core_inv:
  assumes "nonneg cfg" and "core_inv cfg a s" and "step cfg a s = Inr s'"
  shows "core_inv cfg a s'"
proof -
  from assms(2) have i: "run_inv cfg a s" "sound_inv cfg s" "start_fixed cfg s" "opt_inv cfg s"
    by (simp_all add: core_inv_def)
  from step_run_inv[OF assms(3) i(1)] step_sound_inv[OF assms(3) i(1,2)]
    step_start_fixed[OF assms(3) i(3)] step_opt_inv[OF assms(3) i(1-4) assms(1)]
  show ?thesis by (simp add: core_inv_def)
qed

lemma step_full_inv:
  assumes "nonneg cfg" and "[] \<notin> set (nodes cfg)" and "full_inv cfg a s"
    and "step cfg a s = Inr s'"
  shows "full_inv cfg a s'"
proof -
  from assms(3) have c: "core_inv cfg a s" and tp: "tree_inv cfg s" "path_inv cfg s"
    by (simp_all add: full_inv_def)
  from c have i: "run_inv cfg a s" "sound_inv cfg s" "start_fixed cfg s" "opt_inv cfg s"
    by (simp_all add: core_inv_def)
  from step_core_inv[OF assms(1) c assms(4)] step_tree_path[OF assms(4) i tp assms(1,2)]
  show ?thesis by (simp add: full_inv_def)
qed

lemma core_inv_initial:
  assumes "wf_config cfg"
  shows "core_inv cfg a (start cfg a now (reset cfg))"
  using run_inv_initial[OF assms] sound_inv_initial start_fixed_initial opt_inv_initial
  by (simp add: core_inv_def)

lemma full_inv_initial:
  assumes "wf_config cfg"
  shows "full_inv cfg a (start cfg a now (reset cfg))"
proof -
  from assms have "start_node cfg \<in> set (nodes cfg)" by (simp add: wf_config_def)
  from tree_inv_initial[OF this] core_inv_initial[OF assms] path_inv_initial
  show ?thesis by (simp add: full_inv_def)
qed


lemma run_full_inv:
  assumes "wf_config cfg" and "nonneg cfg" and "[] \<notin> set (nodes cfg)"
  shows "\<exists>s. run cfg a now = Some (Inr s) \<and> is_finished s \<and> full_inv cfg a s"
  using assms(1) full_inv_initial[OF assms(1)] step_full_inv[OF assms(2,3)]
  by (rule run_invariant)

lemma finished_end_distance:
  assumes wf: "wf_config cfg" and ci: "core_inv cfg a s" and fin: "is_finished s"
  shows "\<exists>d. dist s (end_node cfg) = Some d \<and> shortest cfg (end_node cfg) d
           \<and> (end_node cfg \<in> visited s \<longleftrightarrow> d \<noteq> PosInf)"
proof -
  from ci have i: "run_inv cfg a s" "sound_inv cfg s" "start_fixed cfg s" "opt_inv cfg s"
    by (simp_all add: core_inv_def)
  from wf have e: "end_node cfg \<in> set (nodes cfg)" by (simp add: wf_config_def)
  show ?thesis
  proof (cases "end_node cfg \<in> visited s")
    case True
    from visited_shortest[OF i(2,4) True] True show ?thesis by auto
  next
    case False
    from exhausted_shortest[OF i fin False e] obtain d where
      d: "dist s (end_node cfg) = Some d" "shortest cfg (end_node cfg) d" by blast
    from i(4) fin False d(1) have "d = PosInf" by (cases d) (auto simp: opt_inv_def)
    with d False show ?thesis by simp
  qed
qed

lemma finished_shown_path:
  assumes fi: "full_inv cfg a s" and x: "dist s (end_node cfg) = Some (Fin x)"
    and v: "end_node cfg \<in> visited s"
  shows "\<exists>p. shown_path cfg s = Some (Inr (Some p)) \<and> p \<noteq> [] \<and> hd p = start_node cfg
           \<and> last p = end_node cfg \<and> distinct p \<and> set p \<subseteq> visited s
           \<and> path_cost cfg p = Some x"
proof -
  from fi have "path_inv cfg s" by (simp add: full_inv_def)
  with v x obtain ps where c: "chain (prev s) (end_node cfg) ps" "set ps \<subseteq> visited s"
    "distinct ps" "last ps = start_node cfg" "path_cost cfg (rev ps) = Some x"
    unfolding path_inv_def by fastforce
  from chain_hd[OF c(1)] obtain qs where qs: "ps = end_node cfg # qs" by blast
  from chain_walk_prev[OF c(1), of "[]"] x
  have "shown_path cfg s = Some (Inr (Some (rev ps)))" by (simp add: shown_path_def)
  moreover from qs have "rev ps \<noteq> []" "last (rev ps) = end_node cfg" by simp_all
  moreover from qs have "ps \<noteq> []" by simp
  then have "hd (rev ps) = start_node cfg" using c(4) by (simp only: hd_rev)
  ultimately show ?thesis using c(2,3,5) by simp
qed

lemma infinite_shown_path:
  assumes "dist s (end_node cfg) = Some PosInf"
  shows "shown_path cfg s = Some (Inr None)"
  using assms by (simp add: shown_path_def)

section \<open>The two algorithms compared; the highlighted path\<close>









text \<open>
  Apart from that case the walk is right: in a well-formed graph without negative
  weights and without an empty name, the finished engine highlights no path when the
  distance of the end node is infinite, and otherwise a path without repetition (so of
  at most as many nodes as the graph has) from the start node to the end node.
\<close>

lemma shown_path_correct:
  assumes "wf_config cfg" and "nonneg cfg" and "[] \<notin> set (nodes cfg)"
  shows "\<exists>s d. run cfg a now = Some (Inr s) \<and> is_finished s \<and> dist s (end_node cfg) = Some d
           \<and> (case d of
                PosInf \<Rightarrow> shown_path cfg s = Some (Inr None)
              | Fin x \<Rightarrow> (\<exists>p. shown_path cfg s = Some (Inr (Some p)) \<and> p \<noteq> []
                             \<and> hd p = start_node cfg \<and> last p = end_node cfg \<and> distinct p
                             \<and> length p \<le> length (nodes cfg) \<and> path_cost cfg p = Some x))"
proof -
  from run_full_inv[OF assms, of a now] obtain s where s: "run cfg a now = Some (Inr s)"
    "is_finished s" "full_inv cfg a s" by blast
  then have c: "core_inv cfg a s" by (simp add: full_inv_def)
  from finished_end_distance[OF assms(1) c s(2)] obtain d where d: "dist s (end_node cfg) = Some d"
    "end_node cfg \<in> visited s \<longleftrightarrow> d \<noteq> PosInf" by blast
  from c have vis: "visited s \<subseteq> set (nodes cfg)" by (simp add: core_inv_def run_inv_def keys_inv_def)
  show ?thesis
  proof (cases d)
    case PosInf
    with infinite_shown_path[of s cfg] d s(1,2) show ?thesis by auto
  next
    case (Fin x)
    with finished_shown_path[OF s(3), of x] d obtain p where p: "shown_path cfg s = Some (Inr (Some p))"
      "p \<noteq> []" "hd p = start_node cfg" "last p = end_node cfg" "distinct p" "set p \<subseteq> visited s"
      "path_cost cfg p = Some x" by auto
    from p(5) have "length p = card (set p)" by (simp add: distinct_card)
    also from p(6) vis have "\<dots> \<le> card (set (nodes cfg))" by (intro card_mono) auto
    also have "\<dots> \<le> length (nodes cfg)" by (rule card_length)
    finally have "length p \<le> length (nodes cfg)" .
    with p s(1,2) d(1) Fin show ?thesis by auto
  qed
qed

section \<open>The built-in graph\<close>

lemma wf_builtin_any:
  assumes "distinct order" and "set order = set (map fst builtin_graph)"
  shows "wf_config (builtin order)"
  unfolding wf_config_def
proof (intro conjI allI impI)
  fix u es v w
  assume "map_of (graph (builtin order)) u = Some es" and "(v, w) \<in> set es"
  then show "v \<in> set (nodes (builtin order))"
    by (auto simp: builtin_def builtin_graph_def nodes_def split: if_splits)
qed (use assms in \<open>simp_all add: builtin_def builtin_graph_def nodes_def\<close>)

lemma nonneg_builtin: "nonneg (builtin order)"
  by (auto simp: nonneg_def adj_def builtin_def builtin_graph_def split: if_splits)

lemma builtin_edge:
  assumes "e \<in> set (adj (builtin order) u)"
  shows "builtin_shortest (fst e) \<le> builtin_shortest u + snd e"
  using assms
  by (auto simp: adj_def builtin_def builtin_graph_def builtin_shortest_def split: if_splits)

lemma builtin_potential:
  assumes "is_walk (builtin order) u es v"
  shows "builtin_shortest v \<le> builtin_shortest u + cost es"
  using assms
proof (induction es arbitrary: u)
  case Nil
  then show ?case by (simp add: cost_def)
next
  case (Cons e es)
  from Cons.prems have e: "e \<in> set (adj (builtin order) u)"
    and r: "is_walk (builtin order) (fst e) es v" by simp_all
  from builtin_edge[OF e] Cons.IH[OF r] show ?case by (simp add: cost_def)
qed

lemma builtin_tight:
  assumes "(v, w) \<in> set (adj (builtin order) p)"
    and "builtin_shortest v = builtin_shortest p + w"
  shows "(v, p) \<in> {(''B'', ''A''), (''C'', ''A''), (''D'', ''B''), (''E'', ''D''), (''F'', ''D''), (''F'', ''G''), (''G'', ''E'')}"
  using assms
  by (auto simp: adj_def builtin_def builtin_graph_def builtin_shortest_def split: if_splits)

lemma builtin_walks:
  assumes "v \<in> set (nodes (builtin order))"
  shows "\<exists>es. is_walk (builtin order) ''A'' es v \<and> cost es = builtin_shortest v"
proof -
  let ?c = "builtin order"
  have "is_walk ?c ''A'' [] ''A'' \<and> cost [] = builtin_shortest ''A''"
    "is_walk ?c ''A'' [(''B'', 2)] ''B'' \<and> cost [(''B'', 2)] = builtin_shortest ''B''"
    "is_walk ?c ''A'' [(''C'', 5)] ''C'' \<and> cost [(''C'', 5)] = builtin_shortest ''C''"
    "is_walk ?c ''A'' [(''B'', 2), (''D'', 1)] ''D''
       \<and> cost [(''B'', 2), (''D'', 1)] = builtin_shortest ''D''"
    "is_walk ?c ''A'' [(''B'', 2), (''D'', 1), (''E'', 1)] ''E''
       \<and> cost [(''B'', 2), (''D'', 1), (''E'', 1)] = builtin_shortest ''E''"
    "is_walk ?c ''A'' [(''B'', 2), (''D'', 1), (''F'', 4)] ''F''
       \<and> cost [(''B'', 2), (''D'', 1), (''F'', 4)] = builtin_shortest ''F''"
    "is_walk ?c ''A'' [(''B'', 2), (''D'', 1), (''E'', 1), (''G'', 2)] ''G''
       \<and> cost [(''B'', 2), (''D'', 1), (''E'', 1), (''G'', 2)] = builtin_shortest ''G''"
    by (simp_all add: adj_def builtin_def builtin_graph_def builtin_shortest_def cost_def)
  moreover from assms have "v \<in> {''A'', ''B'', ''C'', ''D'', ''E'', ''F'', ''G''}"
    by (simp add: builtin_def builtin_graph_def nodes_def)
  ultimately show ?thesis by blast
qed

lemma builtin_shortest:
  assumes "v \<in> set (nodes (builtin order))"
  shows "shortest (builtin order) v (Fin (builtin_shortest v))"
proof -
  have s: "start_node (builtin order) = ''A''" by (simp add: builtin_def)
  have "builtin_shortest v \<le> cost es" if "is_walk (builtin order) ''A'' es v" for es
    using builtin_potential[OF that] by (simp add: builtin_shortest_def)
  with builtin_walks[OF assms] show ?thesis by (simp add: shortest_def s)
qed

text \<open>
  C2. On the built-in graph with start A and end G, whatever the order in which the set
  of nodes is iterated, a run with either algorithm finishes with distance 6 for G, the
  status "Path found!" and the highlighted path A, B, D, E, G.
\<close>

theorem builtin_run:
  assumes "distinct order" and "set order = set (map fst builtin_graph)"
  shows "\<exists>s. run (builtin order) a now = Some (Inr s) \<and> is_finished s
           \<and> dist s ''G'' = Some (Fin 6)
           \<and> shown_path (builtin order) s = Some (Inr (Some [''A'', ''B'', ''D'', ''E'', ''G'']))
           \<and> status_label s = ''Path found!''"
proof -
  let ?c = "builtin order"
  have wf: "wf_config ?c" using assms by (rule wf_builtin_any)
  have ne: "[] \<notin> set (nodes ?c)" by (simp add: builtin_def builtin_graph_def nodes_def)
  have se: "start_node ?c = ''A''" "end_node ?c = ''G''" by (simp_all add: builtin_def)
  from run_full_inv[OF wf nonneg_builtin ne, of a now] obtain s where
    s: "run ?c a now = Some (Inr s)" "is_finished s" "full_inv ?c a s" by blast
  then have c: "core_inv ?c a s" and t: "tree_inv ?c s" by (simp_all add: full_inv_def)
  from c have i: "run_inv ?c a s" "sound_inv ?c s" "opt_inv ?c s" by (simp_all add: core_inv_def)
  from i(1) have vis: "visited s \<subseteq> set (nodes ?c)" by (simp add: run_inv_def keys_inv_def)
  have D: "dist s v = Some (Fin (builtin_shortest v))" if "v \<in> visited s" for v
  proof -
    from visited_shortest[OF i(2,3) that] obtain x where
      x: "dist s v = Some (Fin x)" "shortest ?c v (Fin x)" by blast
    from that vis have "v \<in> set (nodes ?c)" by auto
    from shortest_unique[OF x(2) builtin_shortest[OF this]] x(1) show ?thesis by simp
  qed
  have P: "\<exists>p. prev s v = Some (Some p) \<and> p \<in> visited s
             \<and> (v, p) \<in> {(''B'', ''A''), (''C'', ''A''), (''D'', ''B''), (''E'', ''D''), (''F'', ''D''), (''F'', ''G''), (''G'', ''E'')}"
    if v: "v \<in> visited s" "v \<noteq> ''A''" for v
  proof -
    from t D[OF v(1)] v(2) se obtain p where p: "prev s v = Some (Some p)"
      unfolding tree_inv_def by blast
    with t obtain x w where h: "p \<in> visited s" "dist s p = Some (Fin x)"
      "(v, w) \<in> set (adj ?c p)" "dist s v = Some (Fin (x + w))"
      unfolding tree_inv_def by blast
    from h(2) D[OF h(1)] have "x = builtin_shortest p" by simp
    with h(4) D[OF v(1)] have "builtin_shortest v = builtin_shortest p + w" by simp
    from builtin_tight[OF h(3) this] p h(1) show ?thesis by blast
  qed
  from finished_end_distance[OF wf c s(2)] obtain d where d: "dist s ''G'' = Some d"
    "shortest ?c ''G'' d" "''G'' \<in> visited s \<longleftrightarrow> d \<noteq> PosInf" by (auto simp: se)
  have "''G'' \<in> set (nodes ?c)" by (simp add: builtin_def builtin_graph_def nodes_def)
  from shortest_unique[OF d(2) builtin_shortest[OF this]] have d6: "d = Fin 6"
    by (simp add: builtin_shortest_def)
  with d(3) have vG: "''G'' \<in> visited s" by simp
  from P[OF vG] have pG: "prev s ''G'' = Some (Some ''E'')" and vE: "''E'' \<in> visited s" by auto
  from P[OF vE] have pE: "prev s ''E'' = Some (Some ''D'')" and vD: "''D'' \<in> visited s" by auto
  from P[OF vD] have pD: "prev s ''D'' = Some (Some ''B'')" and vB: "''B'' \<in> visited s" by auto
  from P[OF vB] have pB: "prev s ''B'' = Some (Some ''A'')" by auto
  from t se have pA: "prev s ''A'' = Some None" by (simp add: tree_inv_def)
  have "walk_prev (prev s) (Some ''G'') [] = Some (Inr [''G'', ''E'', ''D'', ''B'', ''A''])"
    by (simp add: walk_prev.simps pG pE pD pB pA)
  with d(1) d6 have sp: "shown_path ?c s = Some (Inr (Some [''A'', ''B'', ''D'', ''E'', ''G'']))"
    by (simp add: shown_path_def se)
  from i(2) s(2) d(1) d6 have "status_label s = ''Path found!''"
    by (auto simp: sound_inv_def se)
  with s(1,2) d(1) d6 sp show ?thesis by simp
qed

theorem builtin_run_witness:
  "distinct builtin_order \<and> set builtin_order = set (map fst builtin_graph)
   \<and> (\<exists>s. run (builtin builtin_order) Heap 0 = Some (Inr s) \<and> dist s ''G'' = Some (Fin 6)
          \<and> shown_path (builtin builtin_order) s = Some (Inr (Some [''A'', ''B'', ''D'', ''E'', ''G''])))
   \<and> (\<exists>s. run (builtin builtin_order) Lin 0 = Some (Inr s) \<and> dist s ''G'' = Some (Fin 6)
          \<and> shown_path (builtin builtin_order) s = Some (Inr (Some [''A'', ''B'', ''D'', ''E'', ''G''])))"
proof -
  have o: "distinct builtin_order" "set builtin_order = set (map fst builtin_graph)"
    by (auto simp: builtin_order_def builtin_graph_def)
  from builtin_run[OF o, of Heap 0] builtin_run[OF o, of Lin 0] o show ?thesis by blast
qed

end
